theory Spec2Isabelle
  imports Main
begin

section \<open>JavaScript values used by the widget\<close>

text \<open>
  Strings are lists of code units. The regular-expression classes of the source are the
  ASCII ones: \<open>\w\<close> is \<open>[A-Za-z0-9_]\<close>, and the \<open>i\<close> flag folds the ASCII letters.
  A dereference of \<open>undefined\<close> raises a TypeError in the source; it is the only error.
\<close>

datatype js_error = TypeError

datatype jsval = JNull | JFalse | JStr string

definition is_word_char :: "char \<Rightarrow> bool" where
  "is_word_char c =
     (let n = (of_char c :: nat)
      in (48 \<le> n \<and> n \<le> 57) \<or> (65 \<le> n \<and> n \<le> 90) \<or> (97 \<le> n \<and> n \<le> 122) \<or> n = 95)"

section \<open>The host control\<close>

text \<open>
  The child nodes of the native select element: option elements, option groups with their
  own child nodes, and anything else (text nodes, comments).
\<close>

record option_el =
  opt_text :: string
  opt_value :: string
  opt_innerHTML :: string
  opt_title :: string
  opt_selected :: bool
  opt_disabled :: bool
  opt_className :: string
  opt_cssText :: string

record optgroup_el =
  grp_label :: string
  grp_title :: string
  grp_disabled :: bool
  grp_className :: string

datatype node = OPTION option_el | OPTGROUP optgroup_el "node list" | OTHER

section \<open>SelectParser\<close>

text \<open>
  One entry of the flat list. The source builds three shapes of object (group, option,
  empty option); a field the source leaves undefined holds \<open>None\<close>, \<open>False\<close>, \<open>0\<close> or
  the empty string, which is how the source reads it (\<open>undefined\<close> is falsy).
  The last four fields are written by the filter.
\<close>

record item =
  array_index :: nat
  group :: bool
  label :: string
  title :: "string option"
  children :: nat
  disabled :: bool
  classes :: string
  options_index :: "nat option"
  val :: string
  text' :: string
  html :: string
  selected :: bool
  group_array_index :: "nat option"
  group_label :: "string option"
  style :: string
  empty :: bool
  search_match :: bool
  group_match :: bool
  active_options :: "nat option"
  search_text :: string

record parser =
  parser_options_index :: nat
  parsed :: "item list"

definition blank_item :: item where
  "blank_item = \<lparr> array_index = 0, group = False, label = [], title = None, children = 0,
     disabled = False, classes = [], options_index = None, val = [], text' = [], html = [],
     selected = False, group_array_index = None, group_label = None, style = [],
     empty = False, search_match = False, group_match = False, active_options = None,
     search_text = [] \<rparr>"

definition entity_follows :: "string \<Rightarrow> bool" where
  \<comment> \<open>the lookahead \<open>\w+;\<close>\<close>
  "entity_follows cs =
     (takeWhile is_word_char cs \<noteq> [] \<and>
      (case dropWhile is_word_char cs of [] \<Rightarrow> False | d # _ \<Rightarrow> d = CHR '';''))"

definition entity_of :: "char \<Rightarrow> string option" where
  \<comment> \<open>the table \<open>b\<close> of \<open>escapeExpression\<close>\<close>
  "entity_of c =
     (if c = CHR ''<'' then Some ''&lt;''
      else if c = CHR ''>'' then Some ''&gt;''
      else if c = CHR 0x22 then Some ''&quot;''
      else if c = CHR 0x27 then Some ''&#x27;''
      else if c = CHR 0x60 then Some ''&#x60;''
      else None)"

definition is_special :: "char \<Rightarrow> bool" where
  \<comment> \<open>the class \<open>[&<>"'`]\<close>\<close>
  "is_special c = (c = CHR ''&'' \<or> c = CHR ''<'' \<or> c = CHR ''>'' \<or> c = CHR 0x22 \<or>
     c = CHR 0x27 \<or> c = CHR 0x60)"

fun replace_specials :: "string \<Rightarrow> string" where
  \<comment> \<open>\<open>a.replace(/&(?!\w+;)|[<>"'`]/g, function(a){return b[a]||"&amp;"})\<close>\<close>
  "replace_specials [] = []"
| "replace_specials (c # cs) =
     (if (c = CHR ''&'' \<and> \<not> entity_follows cs) \<or> c = CHR ''<'' \<or> c = CHR ''>'' \<or>
         c = CHR 0x22 \<or> c = CHR 0x27 \<or> c = CHR 0x60
      then (case entity_of c of Some e \<Rightarrow> e | None \<Rightarrow> ''&amp;'')
      else [c]) @ replace_specials cs"

definition escapeExpression :: "jsval \<Rightarrow> string" where
  "escapeExpression a =
     (case a of
        JNull \<Rightarrow> []
      | JFalse \<Rightarrow> []
      | JStr s \<Rightarrow> if (\<exists>c \<in> set s. is_special c) then replace_specials s else s)"

definition add_option :: "node \<Rightarrow> nat option \<Rightarrow> bool option \<Rightarrow> parser \<Rightarrow> js_error + parser" where
  "add_option a b c p =
     (case a of
        OPTION el \<Rightarrow>
          (if opt_text el \<noteq> [] then
             (case b of
                None \<Rightarrow>
                  Inr (p\<lparr> parsed := parsed p @
                         [blank_item\<lparr> array_index := length (parsed p),
                            options_index := Some (parser_options_index p),
                            val := opt_value el, text' := opt_text el, html := opt_innerHTML el,
                            title := (if opt_title el \<noteq> [] then Some (opt_title el) else None),
                            selected := opt_selected el,
                            disabled := (if c = Some True then True else opt_disabled el),
                            group_array_index := None, group_label := None,
                            classes := opt_className el, style := opt_cssText el \<rparr>],
                       parser_options_index := parser_options_index p + 1 \<rparr>)
              | Some gi \<Rightarrow>
                  (if gi < length (parsed p) then
                     (let ps = (parsed p)[gi := (parsed p ! gi)\<lparr> children := children (parsed p ! gi) + 1 \<rparr>]
                      in Inr (p\<lparr> parsed := ps @
                         [blank_item\<lparr> array_index := length ps,
                            options_index := Some (parser_options_index p),
                            val := opt_value el, text' := opt_text el, html := opt_innerHTML el,
                            title := (if opt_title el \<noteq> [] then Some (opt_title el) else None),
                            selected := opt_selected el,
                            disabled := (if c = Some True then True else opt_disabled el),
                            group_array_index := Some gi, group_label := Some (label (ps ! gi)),
                            classes := opt_className el, style := opt_cssText el \<rparr>],
                       parser_options_index := parser_options_index p + 1 \<rparr>))
                   else Inl TypeError))
           else
             Inr (p\<lparr> parsed := parsed p @
                    [blank_item\<lparr> array_index := length (parsed p),
                       options_index := Some (parser_options_index p), empty := True \<rparr>],
                  parser_options_index := parser_options_index p + 1 \<rparr>))
      | _ \<Rightarrow> Inr p)"

fun add_options :: "node list \<Rightarrow> nat option \<Rightarrow> bool option \<Rightarrow> parser \<Rightarrow> js_error + parser" where
  \<comment> \<open>the loop of \<open>add_group\<close> over the child nodes\<close>
  "add_options [] b c p = Inr p"
| "add_options (a # as) b c p =
     (case add_option a b c p of Inl e \<Rightarrow> Inl e | Inr p' \<Rightarrow> add_options as b c p')"

definition add_group :: "optgroup_el \<Rightarrow> node list \<Rightarrow> parser \<Rightarrow> js_error + parser" where
  "add_group g cs p =
     (let b = length (parsed p)
      in add_options cs (Some b) (Some (grp_disabled g))
           (p\<lparr> parsed := parsed p @
                [blank_item\<lparr> array_index := b, group := True,
                   label := escapeExpression (JStr (grp_label g)),
                   title := (if grp_title g \<noteq> [] then Some (grp_title g) else None),
                   children := 0, disabled := grp_disabled g,
                   classes := grp_className g \<rparr>] \<rparr>))"

definition add_node :: "node \<Rightarrow> parser \<Rightarrow> js_error + parser" where
  "add_node a p =
     (case a of OPTGROUP g cs \<Rightarrow> add_group g cs p | _ \<Rightarrow> add_option a None None p)"

fun add_nodes :: "node list \<Rightarrow> parser \<Rightarrow> js_error + parser" where
  \<comment> \<open>the loop of \<open>select_to_array\<close>\<close>
  "add_nodes [] p = Inr p"
| "add_nodes (a # as) p =
     (case add_node a p of Inl e \<Rightarrow> Inl e | Inr p' \<Rightarrow> add_nodes as p')"

definition select_to_array :: "node list \<Rightarrow> js_error + item list" where
  "select_to_array childNodes =
     (case add_nodes childNodes \<lparr> parser_options_index = 0, parsed = [] \<rparr> of
        Inl e \<Rightarrow> Inl e
      | Inr p \<Rightarrow> Inr (parsed p))"

section \<open>Strings and regular expressions\<close>

definition is_space :: "char \<Rightarrow> bool" where
  \<comment> \<open>the class \<open>\s\<close> on code units below 256\<close>
  "is_space c = (of_char c \<in> {9, 10, 11, 12, 13, 32, 160 :: nat})"

definition trim :: "string \<Rightarrow> string" where
  "trim s = rev (dropWhile is_space (rev (dropWhile is_space s)))"

fun escape_html :: "string \<Rightarrow> string" where
  \<comment> \<open>\<open>$("<div/>").text(b).html()\<close>: the serialisation of a text node\<close>
  "escape_html [] = []"
| "escape_html (c # cs) =
     (if c = CHR ''&'' then ''&amp;''
      else if c = CHR ''<'' then ''&lt;''
      else if c = CHR ''>'' then ''&gt;''
      else if of_char c = (160 :: nat) then ''&nbsp;''
      else [c]) @ escape_html cs"

definition is_regex_special :: "char \<Rightarrow> bool" where
  \<comment> \<open>the class \<open>[-[\]{}()*+?.,\\^$|#\s]\<close>\<close>
  "is_regex_special c =
     (c \<in> set ''-[]{}()*+?.,^$|#'' \<or> c = CHR 0x5C \<or> is_space c)"

fun escape_regex :: "string \<Rightarrow> string" where
  \<comment> \<open>\<open>g.replace(/[-[\]{}()*+?.,\\^$|#\s]/g, "\\$&")\<close>\<close>
  "escape_regex [] = []"
| "escape_regex (c # cs) =
     (if is_regex_special c then [CHR 0x5C, c] else [c]) @ escape_regex cs"

record regexp =
  source :: string
  flags :: string

text \<open>
  The patterns the widget compiles are an optional assertion (\<open>^\<close> or \<open>\b\<close>) followed by
  the escaped query, in which each character stands for itself and a backslash makes the
  next character stand for itself. The matcher below is the semantics of RegExp on these.
\<close>

datatype atom = AStart | AWordB | ALit char

fun parse_pattern :: "string \<Rightarrow> atom list" where
  "parse_pattern [] = []"
| "parse_pattern (c # cs) =
     (if c = CHR ''^'' then AStart # parse_pattern cs
      else if c = CHR 0x5C then
        (case cs of
           [] \<Rightarrow> [ALit c]
         | d # ds \<Rightarrow> (if d = CHR ''b'' then AWordB else ALit d) # parse_pattern ds)
      else ALit c # parse_pattern cs)"

definition canonicalize :: "char \<Rightarrow> char" where
  \<comment> \<open>the upper-case form the \<open>i\<close> flag compares, on code units below 256: the letters
      \<open>a\<close> to \<open>z\<close> and the Latin-1 letters 0xE0 to 0xFE (0xF7 is the division sign) have
      their upper-case form 32 below; 0xB5 and 0xFF have theirs above 255 and 0xDF has a
      two-letter one, so they compare equal to themselves only\<close>
  "canonicalize c =
     (let n = (of_char c :: nat)
      in if (97 \<le> n \<and> n \<le> 122) \<or> (224 \<le> n \<and> n \<le> 254 \<and> n \<noteq> 247)
         then char_of (n - 32) else c)"

definition char_matches :: "bool \<Rightarrow> char \<Rightarrow> char \<Rightarrow> bool" where
  "char_matches ic a b = (if ic then canonicalize a = canonicalize b else a = b)"

definition word_at :: "string \<Rightarrow> int \<Rightarrow> bool" where
  "word_at s i = (0 \<le> i \<and> i < int (length s) \<and> is_word_char (s ! nat i))"

fun match_atoms :: "bool \<Rightarrow> atom list \<Rightarrow> string \<Rightarrow> nat \<Rightarrow> bool" where
  "match_atoms ic [] s i = True"
| "match_atoms ic (AStart # as) s i = (i = 0 \<and> match_atoms ic as s i)"
| "match_atoms ic (AWordB # as) s i =
     (word_at s (int i - 1) \<noteq> word_at s (int i) \<and> match_atoms ic as s i)"
| "match_atoms ic (ALit c # as) s i =
     (i < length s \<and> char_matches ic (s ! i) c \<and> match_atoms ic as s (Suc i))"

definition regex_search :: "regexp \<Rightarrow> string \<Rightarrow> int" where
  \<comment> \<open>\<open>s.search(r)\<close>: the first position where the pattern matches, or -1\<close>
  "regex_search r s =
     (case find (match_atoms (CHR ''i'' \<in> set (flags r)) (parse_pattern (source r)) s)
             [0 ..< Suc (length s)] of
        None \<Rightarrow> - 1
      | Some i \<Rightarrow> int i)"

definition regex_test :: "regexp \<Rightarrow> string \<Rightarrow> bool" where
  "regex_test r s = (0 \<le> regex_search r s)"

definition substr :: "string \<Rightarrow> int \<Rightarrow> int \<Rightarrow> string" where
  \<comment> \<open>\<open>s.substr(start, len)\<close>\<close>
  "substr s start len =
     (let size = int (length s);
          intStart = (if start < 0 then max (size + start) 0 else min start size);
          intLength = min (max len 0) size;
          intEnd = min (intStart + intLength) size
      in take (nat (intEnd - intStart)) (drop (nat intStart) s))"

definition substr_from :: "string \<Rightarrow> int \<Rightarrow> string" where
  \<comment> \<open>\<open>s.substr(start)\<close>\<close>
  "substr_from s start = substr s start (int (length s))"

fun split :: "char \<Rightarrow> string \<Rightarrow> string list" where
  \<comment> \<open>\<open>s.split(" ")\<close>\<close>
  "split sep [] = [[]]"
| "split sep (c # cs) =
     (if c = sep then [] # split sep cs
      else (case split sep cs of [] \<Rightarrow> [[c]] | t # ts \<Rightarrow> (c # t) # ts))"

section \<open>The widget\<close>

datatype jsnum = Num int | Infinity

fun at_most :: "jsnum \<Rightarrow> nat \<Rightarrow> bool" where
  \<comment> \<open>\<open>x <= n\<close> for a count \<open>n\<close>\<close>
  "at_most (Num x) n = (x \<le> int n)"
| "at_most Infinity n = False"

record li =
  li_class :: "string list"
  li_index :: "nat option"
  li_html :: string
  li_title :: "string option"
  li_style :: string

datatype change_arg = NoArg | Selected string | Deselected string

datatype event = Ready | Maxselected | Showing_dropdown | Hiding_dropdown | No_results
  | Input change_arg | Change change_arg

record select_el =
  multiple :: bool
  childNodes :: "node list"

record options =
  options_enable_split_word_search :: "bool option"
  options_group_search :: "bool option"
  options_search_contains :: "bool option"
  options_max_selected_options :: "jsnum option"
  options_display_selected_options :: "bool option"
  options_display_disabled_options :: "bool option"
  options_max_shown_results :: "jsnum option"
  options_case_sensitive_search :: "bool option"
  options_hide_results_on_select :: "bool option"
  options_placeholder_text :: string
  options_no_results_text :: string

record chosen =
  form_field :: select_el
  widget_options :: options
  is_multiple :: bool
  default_text :: string
  results_none_found :: string
  active_field :: bool
  results_showing :: bool
  result_highlight :: "nat option"
  enable_split_word_search :: bool
  group_search :: bool
  search_contains :: bool
  max_selected_options :: jsnum
  display_selected_options :: bool
  display_disabled_options :: bool
  max_shown_results :: jsnum
  case_sensitive_search :: bool
  hide_results_on_select :: bool
  current_selectedIndex :: int
  results_data :: "item list"
  selected_option_count :: "nat option"
  search_results :: "li list"
  search_field :: string
  triggered :: "event list"

definition get_search_regex :: "chosen \<Rightarrow> string \<Rightarrow> regexp" where
  "get_search_regex s a =
     \<lparr> source = (if search_contains s then [] else ''^'') @ a,
       flags = (if case_sensitive_search s then [] else ''i'') \<rparr>"

definition get_highlight_regex :: "chosen \<Rightarrow> string \<Rightarrow> regexp" where
  "get_highlight_regex s a =
     \<lparr> source = (if search_contains s then [] else [CHR 0x5C, CHR ''b'']) @ a,
       flags = (if case_sensitive_search s then [] else ''i'') \<rparr>"

definition search_string_match :: "chosen \<Rightarrow> string \<Rightarrow> regexp \<Rightarrow> bool" where
  "search_string_match s a b =
     (if regex_test b a then True
      else if enable_split_word_search s \<and> (CHR '' '' \<in> set a \<or> take 1 a = ''['')
      then list_ex (regex_test b) (split CHR '' '' (filter (\<lambda>c. c \<noteq> CHR ''['' \<and> c \<noteq> CHR '']'') a))
      else False)"

definition include_option_in_results :: "chosen \<Rightarrow> item \<Rightarrow> bool" where
  "include_option_in_results s a =
     (if is_multiple s \<and> \<not> display_selected_options s \<and> selected a then False
      else if \<not> display_disabled_options s \<and> disabled a then False
      else if empty a then False
      else True)"

section \<open>Rendering the result list\<close>

text \<open>
  A rendered entry keeps its class attribute as the list of its class names. The markup
  inside an entry is a string: it is taken to hold no element that carries a class name
  of the widget.
\<close>

definition class_tokens :: "string \<Rightarrow> string list" where
  "class_tokens s =
     filter (\<lambda>t. t \<noteq> [])
       (split CHR '' '' (map (\<lambda>c. if of_char c \<in> {9, 10, 12, 13 :: nat} then CHR '' '' else c) s))"

definition hasClass :: "string \<Rightarrow> li \<Rightarrow> bool" where
  "hasClass cl l = (cl \<in> set (li_class l))"

definition addClass :: "string \<Rightarrow> li \<Rightarrow> li" where
  "addClass cl l = (if hasClass cl l then l else l\<lparr> li_class := li_class l @ [cl] \<rparr>)"

definition removeClass :: "string \<Rightarrow> li \<Rightarrow> li" where
  "removeClass cl l = l\<lparr> li_class := filter (\<lambda>t. t \<noteq> cl) (li_class l) \<rparr>"

definition result_add_option :: "chosen \<Rightarrow> item \<Rightarrow> li option" where
  "result_add_option s a =
     (if search_match a \<and> include_option_in_results s a then
        Some \<lparr> li_class = concat (map class_tokens
                  ((if \<not> (disabled a \<or> (selected a \<and> is_multiple s)) then [''active-result''] else []) @
                   (if \<not> (\<not> disabled a \<or> (selected a \<and> is_multiple s)) then [''disabled-result''] else []) @
                   (if selected a then [''result-selected''] else []) @
                   (if group_array_index a \<noteq> None then [''group-option''] else []) @
                   (if classes a \<noteq> [] then [classes a] else []))),
               li_index = Some (array_index a),
               li_html = search_text a,
               li_title = title a,
               li_style = style a \<rparr>
      else None)"

definition result_add_group :: "chosen \<Rightarrow> item \<Rightarrow> li option" where
  "result_add_group s a =
     (if (search_match a \<or> group_match a) \<and> (case active_options a of None \<Rightarrow> False | Some n \<Rightarrow> 0 < n)
      then
        Some \<lparr> li_class = concat (map class_tokens
                  ([''group-result''] @ (if classes a \<noteq> [] then [classes a] else []))),
               li_index = None,
               li_html = search_text a,
               li_title = title a,
               li_style = [] \<rparr>
      else None)"

fun results_option_build_loop :: "chosen \<Rightarrow> item list \<Rightarrow> nat \<Rightarrow> li list" where
  \<comment> \<open>the loop of \<open>results_option_build\<close>; \<open>e\<close> counts the entries built so far\<close>
  "results_option_build_loop s [] e = []"
| "results_option_build_loop s (c # cs) e =
     (let d = (if group c then result_add_group s c else result_add_option s c);
          e' = (if d \<noteq> None then e + 1 else e)
      in (case d of None \<Rightarrow> [] | Some l \<Rightarrow> [l]) @
         (if at_most (max_shown_results s) e' then [] else results_option_build_loop s cs e'))"

definition results_option_build :: "chosen \<Rightarrow> li list" where
  "results_option_build s = results_option_build_loop s (results_data s) 0"

section \<open>The filter\<close>

definition get_search_text :: "chosen \<Rightarrow> string" where
  "get_search_text s = escape_html (trim (search_field s))"

definition highlight_text :: "string \<Rightarrow> regexp \<Rightarrow> string \<Rightarrow> string" where
  \<comment> \<open>the emphasis markers around the first match of the highlight pattern\<close>
  "highlight_text t b g =
     (let h = regex_search b t;
          i = substr t 0 (h + int (length g)) @ ''</em>'' @ substr_from t (h + int (length g))
      in substr i 0 h @ ''<em>'' @ substr_from i h)"

definition group_of :: "item list \<Rightarrow> nat \<Rightarrow> nat option" where
  \<comment> \<open>\<open>null != c.group_array_index && this.results_data[c.group_array_index]\<close>: the index of
      the group entry of entry \<open>j\<close>, when it has one and the list holds it\<close>
  "group_of rd j =
     (case group_array_index (rd ! j) of
        None \<Rightarrow> None
      | Some gi \<Rightarrow> if gi < length rd then Some gi else None)"

definition winnow_count :: "nat option \<Rightarrow> item list \<times> nat \<Rightarrow> item list \<times> nat" where
  \<comment> \<open>the entry is counted in its group \<open>f\<close>: the first active option of a group whose own
      label matched counts as a match\<close>
  "winnow_count f acc =
     (case f of
        None \<Rightarrow> acc
      | Some gi \<Rightarrow>
          (let rd = fst acc; e = snd acc
           in (rd[gi := (rd ! gi)\<lparr> active_options := map_option Suc (active_options (rd ! gi)) \<rparr>],
               if active_options (rd ! gi) = Some 0 \<and> search_match (rd ! gi) then e + 1 else e)))"

definition winnow_match ::
  "chosen \<Rightarrow> regexp \<Rightarrow> regexp \<Rightarrow> string \<Rightarrow> nat \<Rightarrow> nat option \<Rightarrow> item list \<times> nat \<Rightarrow>
     js_error \<times> (item list \<times> nat) + item list \<times> nat" where
  \<comment> \<open>the text of entry \<open>j\<close> is matched against the query; \<open>f\<close> is its group\<close>
  "winnow_match s d b g j f acc =
     (let rd4 = fst acc; e1 = snd acc;
          m = search_string_match s (search_text (rd4 ! j)) d;
          rd5 = rd4[j := (rd4 ! j)\<lparr> search_match := m \<rparr>];
          e2 = (if m \<and> \<not> group (rd5 ! j) then e1 + 1 else e1)
      in if m then
           (let rd6 = (if g \<noteq> []
                       then rd5[j := (rd5 ! j)\<lparr> search_text :=
                                     highlight_text (search_text (rd5 ! j)) b g \<rparr>]
                       else rd5);
                rd7 = (case f of
                         None \<Rightarrow> rd6
                       | Some gi \<Rightarrow> rd6[gi := (rd6 ! gi)\<lparr> group_match := True \<rparr>])
            in Inr (rd7, e2))
         else
           (case group_array_index (rd5 ! j) of
              None \<Rightarrow> Inr (rd5, e2)
            | Some gi \<Rightarrow>
                if gi < length rd5 then
                  (if search_match (rd5 ! gi)
                   then Inr (rd5[j := (rd5 ! j)\<lparr> search_match := True \<rparr>], e2)
                   else Inr (rd5, e2))
                else Inl (TypeError, (rd5, e2))))"

definition winnow_item ::
  "chosen \<Rightarrow> regexp \<Rightarrow> regexp \<Rightarrow> string \<Rightarrow> nat \<Rightarrow> item list \<times> nat \<Rightarrow>
     js_error \<times> (item list \<times> nat) + item list \<times> nat" where
  \<comment> \<open>one round of the loop of \<open>winnow_results\<close>, on entry \<open>j\<close>; \<open>e\<close> is the match counter\<close>
  "winnow_item s d b g j acc =
     (let rd = fst acc; e = snd acc;
          rd1 = rd[j := (rd ! j)\<lparr> search_match := False \<rparr>]
      in if \<not> include_option_in_results s (rd1 ! j) then Inr (rd1, e)
         else
           (let rd2 = (if group (rd1 ! j)
                       then rd1[j := (rd1 ! j)\<lparr> group_match := False, active_options := Some 0 \<rparr>]
                       else rd1);
                f = group_of rd2 j;
                acc3 = winnow_count f (rd2, e);
                rd3 = fst acc3;
                rd4 = rd3[j := (rd3 ! j)\<lparr> search_text :=
                              (if group (rd3 ! j) then label (rd3 ! j) else html (rd3 ! j)) \<rparr>]
            in if group (rd4 ! j) \<and> \<not> group_search s then Inr (rd4, snd acc3)
               else winnow_match s d b g j f (rd4, snd acc3)))"

fun winnow_loop ::
  "chosen \<Rightarrow> regexp \<Rightarrow> regexp \<Rightarrow> string \<Rightarrow> nat list \<Rightarrow> item list \<times> nat \<Rightarrow>
     js_error \<times> (item list \<times> nat) + item list \<times> nat" where
  "winnow_loop s d b g [] acc = Inr acc"
| "winnow_loop s d b g (j # js) acc =
     (case winnow_item s d b g j acc of
        Inl x \<Rightarrow> Inl x
      | Inr acc' \<Rightarrow> winnow_loop s d b g js acc')"

definition update_results_content :: "li list \<Rightarrow> chosen \<Rightarrow> chosen" where
  "update_results_content c s = s\<lparr> search_results := c \<rparr>"

definition no_results_clear :: "chosen \<Rightarrow> chosen" where
  "no_results_clear s =
     s\<lparr> search_results := filter (\<lambda>l. \<not> hasClass ''no-results'' l) (search_results s) \<rparr>"

definition get_no_results_html :: "chosen \<Rightarrow> string \<Rightarrow> li" where
  "get_no_results_html s a =
     \<lparr> li_class = [''no-results''], li_index = None,
       li_html = [CHR 0x0A] @ ''  '' @ results_none_found s @ '' <span>'' @ a @ ''</span>'' @ [CHR 0x0A],
       li_title = None, li_style = [] \<rparr>"

definition no_results :: "string \<Rightarrow> chosen \<Rightarrow> chosen" where
  "no_results a s =
     s\<lparr> search_results := search_results s @ [get_no_results_html s a],
        triggered := triggered s @ [No_results] \<rparr>"

text \<open>
  \<open>result_highlight\<close> refers to an entry of the rendered list; it is kept as the
  position of that entry. The scrolling of \<open>result_do_highlight\<close> is geometry and is
  left out.
\<close>

definition result_clear_highlight :: "chosen \<Rightarrow> chosen" where
  "result_clear_highlight s =
     (case result_highlight s of
        None \<Rightarrow> s\<lparr> result_highlight := None \<rparr>
      | Some k \<Rightarrow>
          s\<lparr> search_results :=
               (if k < length (search_results s)
                then (search_results s)[k := removeClass ''highlighted'' (search_results s ! k)]
                else search_results s),
             result_highlight := None \<rparr>)"

definition result_do_highlight :: "nat option \<Rightarrow> chosen \<Rightarrow> chosen" where
  "result_do_highlight a s =
     (case a of
        None \<Rightarrow> s
      | Some k \<Rightarrow>
          if k < length (search_results s) then
            (let s1 = result_clear_highlight s
             in s1\<lparr> result_highlight := Some k,
                    search_results := (search_results s1)[k := addClass ''highlighted'' (search_results s1 ! k)] \<rparr>)
          else s)"

definition find_first :: "(li \<Rightarrow> bool) \<Rightarrow> li list \<Rightarrow> nat option" where
  \<comment> \<open>\<open>find(selector).first()\<close>, as the position of the entry\<close>
  "find_first P ls = find (\<lambda>k. P (ls ! k)) [0 ..< length ls]"

definition winnow_results_set_highlight :: "chosen \<Rightarrow> chosen" where
  "winnow_results_set_highlight s =
     (let b = (if is_multiple s then None
               else find_first (\<lambda>l. hasClass ''result-selected'' l \<and> hasClass ''active-result'' l)
                      (search_results s));
          a = (case b of
                 Some k \<Rightarrow> Some k
               | None \<Rightarrow> find_first (hasClass ''active-result'') (search_results s))
      in result_do_highlight a s)"

definition winnow_results :: "chosen \<Rightarrow> js_error \<times> chosen + chosen" where
  "winnow_results s =
     (let s1 = no_results_clear s;
          g = get_search_text s1;
          a = escape_regex g;
          d = get_search_regex s1 a;
          b = get_highlight_regex s1 a
      in case winnow_loop s1 d b g [0 ..< length (results_data s1)] (results_data s1, 0) of
           Inl (err, (rd, e)) \<Rightarrow> Inl (err, s1\<lparr> results_data := rd \<rparr>)
         | Inr (rd, e) \<Rightarrow>
             (let s2 = result_clear_highlight (s1\<lparr> results_data := rd \<rparr>)
              in if e < 1 \<and> g \<noteq> []
                 then Inr (no_results g (update_results_content [] s2))
                 else Inr (winnow_results_set_highlight
                             (update_results_content (results_option_build s2) s2))))"

section \<open>Reading and writing the host control\<close>

fun child_options :: "node list \<Rightarrow> option_el list" where
  \<comment> \<open>the option elements among the child nodes of an option group\<close>
  "child_options [] = []"
| "child_options (OPTION el # cs) = el # child_options cs"
| "child_options (c # cs) = child_options cs"

fun el_options :: "node \<Rightarrow> option_el list" where
  "el_options (OPTION el) = [el]"
| "el_options (OPTGROUP g cs) = child_options cs"
| "el_options OTHER = []"

definition form_options :: "select_el \<Rightarrow> option_el list" where
  \<comment> \<open>\<open>form_field.options\<close>: the option children of the control and of its option groups\<close>
  "form_options ff = concat (map el_options (childNodes ff))"

fun el_enabled :: "node \<Rightarrow> bool list" where
  "el_enabled (OPTION el) = [\<not> opt_disabled el]"
| "el_enabled (OPTGROUP g cs) =
     map (\<lambda>el. \<not> grp_disabled g \<and> \<not> opt_disabled el) (child_options cs)"
| "el_enabled OTHER = []"

fun upd_children :: "(nat \<Rightarrow> option_el \<Rightarrow> option_el) \<Rightarrow> nat \<Rightarrow> node list \<Rightarrow> node list" where
  "upd_children f n [] = []"
| "upd_children f n (OPTION el # cs) = OPTION (f n el) # upd_children f (Suc n) cs"
| "upd_children f n (c # cs) = c # upd_children f n cs"

fun upd_nodes :: "(nat \<Rightarrow> option_el \<Rightarrow> option_el) \<Rightarrow> nat \<Rightarrow> node list \<Rightarrow> node list" where
  \<comment> \<open>applies \<open>f i\<close> to the option at position \<open>i\<close> of \<open>form_field.options\<close>\<close>
  "upd_nodes f n [] = []"
| "upd_nodes f n (OPTION el # ns) = OPTION (f n el) # upd_nodes f (Suc n) ns"
| "upd_nodes f n (OPTGROUP g cs # ns) =
     OPTGROUP g (upd_children f n cs) # upd_nodes f (n + length (child_options cs)) ns"
| "upd_nodes f n (OTHER # ns) = OTHER # upd_nodes f n ns"

definition selectedIndex :: "select_el \<Rightarrow> int" where
  "selectedIndex ff =
     (case find (\<lambda>k. opt_selected (form_options ff ! k)) [0 ..< length (form_options ff)] of
        None \<Rightarrow> - 1
      | Some k \<Rightarrow> int k)"

definition set_option_selected :: "nat \<Rightarrow> bool \<Rightarrow> select_el \<Rightarrow> select_el" where
  \<comment> \<open>the assignment \<open>form_field.options[i].selected = v\<close>, as the HTML standard defines it:
      a control that is not multiple keeps one option selected (display size 1)\<close>
  "set_option_selected i v ff =
     (if multiple ff then
        ff\<lparr> childNodes := upd_nodes (\<lambda>k el. if k = i then el\<lparr> opt_selected := v \<rparr> else el) 0 (childNodes ff) \<rparr>
      else if v then
        ff\<lparr> childNodes := upd_nodes (\<lambda>k el. el\<lparr> opt_selected := (k = i) \<rparr>) 0 (childNodes ff) \<rparr>
      else
        (let ns = upd_nodes (\<lambda>k el. if k = i then el\<lparr> opt_selected := False \<rparr> else el) 0 (childNodes ff);
             os = concat (map el_options ns)
         in if list_ex opt_selected os then ff\<lparr> childNodes := ns \<rparr>
            else (case find (\<lambda>k. concat (map el_enabled ns) ! k) [0 ..< length os] of
                    None \<Rightarrow> ff\<lparr> childNodes := ns \<rparr>
                  | Some r \<Rightarrow>
                      ff\<lparr> childNodes := upd_nodes (\<lambda>k el. if k = r then el\<lparr> opt_selected := True \<rparr> else el) 0 ns \<rparr>)))"

section \<open>Selection\<close>

definition trigger :: "event \<Rightarrow> chosen \<Rightarrow> chosen" where
  "trigger ev s = s\<lparr> triggered := triggered s @ [ev] \<rparr>"

definition trigger_form_field_change :: "change_arg \<Rightarrow> chosen \<Rightarrow> chosen" where
  "trigger_form_field_change a s = trigger (Change a) (trigger (Input a) s)"

definition choices_count :: "chosen \<Rightarrow> nat \<times> chosen" where
  \<comment> \<open>the count, and the widget with the count cached\<close>
  "choices_count s =
     (case selected_option_count s of
        Some n \<Rightarrow> (n, s)
      | None \<Rightarrow>
          (let n = length (filter opt_selected (form_options (form_field s)))
           in (n, s\<lparr> selected_option_count := Some n \<rparr>)))"

definition results_hide :: "chosen \<Rightarrow> chosen" where
  "results_hide s =
     (if results_showing s
      then (trigger Hiding_dropdown (result_clear_highlight s))\<lparr> results_showing := False \<rparr>
      else s\<lparr> results_showing := False \<rparr>)"

definition results_show :: "chosen \<Rightarrow> js_error \<times> chosen + chosen" where
  "results_show s =
     (let full = (if is_multiple s
                  then (at_most (max_selected_options s) (fst (choices_count s)), snd (choices_count s))
                  else (False, s))
      in if fst full then Inr (trigger Maxselected (snd full))
         else
           (case winnow_results ((snd full)\<lparr> results_showing := True \<rparr>) of
              Inl x \<Rightarrow> Inl x
            | Inr s' \<Rightarrow> Inr (trigger Showing_dropdown s')))"

definition results_search :: "chosen \<Rightarrow> js_error \<times> chosen + chosen" where
  "results_search s = (if results_showing s then winnow_results s else results_show s)"

definition show_search_field_default :: "chosen \<Rightarrow> chosen" where
  "show_search_field_default s =
     (if is_multiple s then
        (let n = fst (choices_count s); s1 = snd (choices_count s)
         in if n < 1 \<and> \<not> active_field s1
            then s1\<lparr> search_field := default_text s1 \<rparr>
            else s1\<lparr> search_field := [] \<rparr>)
      else s\<lparr> search_field := [] \<rparr>)"

definition reset_single_select_options :: "chosen \<Rightarrow> chosen" where
  "reset_single_select_options s =
     s\<lparr> results_data := map (\<lambda>a. if selected a then a\<lparr> selected := False \<rparr> else a) (results_data s) \<rparr>"

record key_event =
  metaKey :: bool
  ctrlKey :: bool

definition result_select_finish :: "key_event \<Rightarrow> nat \<Rightarrow> chosen \<Rightarrow> chosen" where
  \<comment> \<open>the end of \<open>result_select\<close>, after the host option \<open>oi\<close> has been set: the results
      are hidden, the change is announced and the selected index is recorded\<close>
  "result_select_finish ev oi s6 =
     (let s7 = (if \<not> is_multiple s6 \<or>
                   (hide_results_on_select s6 \<and> \<not> metaKey ev \<and> \<not> ctrlKey ev)
                then show_search_field_default (results_hide s6)
                else s6);
          s8 = (if is_multiple s7 \<or>
                   selectedIndex (form_field s7) \<noteq> current_selectedIndex s7
                then trigger_form_field_change
                       (Selected (opt_value (form_options (form_field s7) ! oi))) s7
                else s7)
      in s8\<lparr> current_selectedIndex := selectedIndex (form_field s8) \<rparr>)"

definition result_select_mark :: "nat \<Rightarrow> chosen \<Rightarrow> chosen" where
  \<comment> \<open>the classes of the highlighted entry, at position \<open>k\<close>, are changed; a single
      selection first resets the other options\<close>
  "result_select_mark k s2 =
     (let s3 = (if is_multiple s2
                then (if k < length (search_results s2)
                      then s2\<lparr> search_results :=
                               (search_results s2)[k := removeClass ''active-result'' (search_results s2 ! k)] \<rparr>
                      else s2)
                else reset_single_select_options s2)
      in if k < length (search_results s3)
         then s3\<lparr> search_results :=
                  (search_results s3)[k := addClass ''result-selected'' (search_results s3 ! k)] \<rparr>
         else s3)"

definition result_select_commit :: "key_event \<Rightarrow> nat \<Rightarrow> chosen \<Rightarrow> js_error \<times> chosen + chosen" where
  \<comment> \<open>the option of the entry at position \<open>k\<close> is selected, in the flat list and on the host\<close>
  "result_select_commit ev k s4 =
     (case (if k < length (search_results s4) then li_index (search_results s4 ! k) else None) of
        None \<Rightarrow> Inl (TypeError, s4)
      | Some ci \<Rightarrow>
          if \<not> ci < length (results_data s4) then Inl (TypeError, s4)
          else
            (let s5 = s4\<lparr> results_data :=
                           (results_data s4)[ci := (results_data s4 ! ci)\<lparr> selected := True \<rparr>] \<rparr>
             in case options_index (results_data s5 ! ci) of
                  None \<Rightarrow> Inl (TypeError, s5)
                | Some oi \<Rightarrow>
                    if \<not> oi < length (form_options (form_field s5)) then Inl (TypeError, s5)
                    else
                      Inr (result_select_finish ev oi
                             (s5\<lparr> form_field := set_option_selected oi True (form_field s5),
                                 selected_option_count := None \<rparr>))))"

definition result_select :: "key_event \<Rightarrow> chosen \<Rightarrow> js_error \<times> chosen + chosen" where
  "result_select ev s =
     (case result_highlight s of
        None \<Rightarrow> Inr s
      | Some k \<Rightarrow>
          (let s1 = result_clear_highlight s;
               full = (if is_multiple s1
                       then (at_most (max_selected_options s1) (fst (choices_count s1)), snd (choices_count s1))
                       else (False, s1))
           in if fst full then Inr (trigger Maxselected (snd full))
              else result_select_commit ev k (result_select_mark k (snd full))))"

definition result_deselect :: "nat \<Rightarrow> chosen \<Rightarrow> js_error \<times> chosen + bool \<times> chosen" where
  "result_deselect a s =
     (if \<not> a < length (results_data s) then Inl (TypeError, s)
      else
        (case options_index (results_data s ! a) of
           None \<Rightarrow> Inl (TypeError, s)
         | Some oi \<Rightarrow>
             if \<not> oi < length (form_options (form_field s)) then Inl (TypeError, s)
             else if opt_disabled (form_options (form_field s) ! oi) then Inr (False, s)
             else
               (let s1 = s\<lparr> results_data := (results_data s)[a := (results_data s ! a)\<lparr> selected := False \<rparr>],
                             form_field := set_option_selected oi False (form_field s),
                             selected_option_count := None \<rparr>;
                    s2 = result_clear_highlight s1
                in case (if results_showing s2 then winnow_results s2 else Inr s2) of
                     Inl x \<Rightarrow> Inl x
                   | Inr s3 \<Rightarrow>
                       Inr (True, trigger_form_field_change
                              (Deselected (opt_value (form_options (form_field s3) ! oi))) s3))))"

definition choice_destroy :: "nat \<Rightarrow> chosen \<Rightarrow> js_error \<times> chosen + chosen" where
  \<comment> \<open>the close link of the choice of entry \<open>a\<close> is clicked\<close>
  "choice_destroy a s =
     (case result_deselect a s of
        Inl x \<Rightarrow> Inl x
      | Inr (ok, s1) \<Rightarrow>
          if \<not> ok then Inr s1
          else
            (let s2 = (if active_field s1 then s1 else show_search_field_default s1);
                 emptied = (if is_multiple s2
                            then (0 < fst (choices_count s2) \<and> length (search_field (snd (choices_count s2))) < 1,
                                  snd (choices_count s2))
                            else (False, s2))
             in Inr (if fst emptied then results_hide (snd emptied) else snd emptied)))"

definition search_results_mouseup :: "nat \<Rightarrow> key_event \<Rightarrow> chosen \<Rightarrow> js_error \<times> chosen + chosen" where
  \<comment> \<open>the pointer is released on the entry at position \<open>k\<close> of the rendered list\<close>
  "search_results_mouseup k ev s =
     (if k < length (search_results s) \<and> hasClass ''active-result'' (search_results s ! k)
      then result_select ev (s\<lparr> result_highlight := Some k \<rparr>)
      else Inr s)"

definition search_results_mouseover :: "nat \<Rightarrow> chosen \<Rightarrow> chosen" where
  "search_results_mouseover k s =
     (if k < length (search_results s) \<and> hasClass ''active-result'' (search_results s ! k)
      then result_do_highlight (Some k) s
      else s)"

definition activate_field :: "chosen \<Rightarrow> chosen" where
  "activate_field s = s\<lparr> active_field := True \<rparr>"

definition close_field :: "chosen \<Rightarrow> chosen" where
  "close_field s = show_search_field_default (results_hide (s\<lparr> active_field := False \<rparr>))"

section \<open>Building the widget\<close>

definition set_default_text :: "chosen \<Rightarrow> chosen" where
  \<comment> \<open>the placeholder and the no-results text, from the options or the built-in texts\<close>
  "set_default_text s =
     (let opts = widget_options s in
      s\<lparr> default_text := escape_html
            (if options_placeholder_text opts \<noteq> [] then options_placeholder_text opts
             else if is_multiple s then ''Select Some Options'' else ''Select an Option''),
        results_none_found :=
            (if options_no_results_text opts \<noteq> [] then options_no_results_text opts
             else ''No results match'') \<rparr>)"

definition or_default :: "bool option \<Rightarrow> bool \<Rightarrow> bool" where
  \<comment> \<open>\<open>null != x ? x : d\<close>, and \<open>x || false\<close> when \<open>d\<close> is false\<close>
  "or_default x d = (case x of None \<Rightarrow> d | Some v \<Rightarrow> v)"

definition or_infinity :: "jsnum option \<Rightarrow> jsnum" where
  \<comment> \<open>\<open>x || Infinity\<close>: undefined and zero are falsy\<close>
  "or_infinity x = (case x of None \<Rightarrow> Infinity | Some v \<Rightarrow> if v = Num 0 then Infinity else v)"

definition set_default_values :: "chosen \<Rightarrow> chosen" where
  "set_default_values s =
     (let opts = widget_options s in
      s\<lparr> active_field := False,
        results_showing := False,
        enable_split_word_search := or_default (options_enable_split_word_search opts) True,
        group_search := or_default (options_group_search opts) True,
        search_contains := or_default (options_search_contains opts) False,
        max_selected_options := or_infinity (options_max_selected_options opts),
        display_selected_options := or_default (options_display_selected_options opts) True,
        display_disabled_options := or_default (options_display_disabled_options opts) True,
        max_shown_results := or_infinity (options_max_shown_results opts),
        case_sensitive_search := or_default (options_case_sensitive_search opts) False,
        hide_results_on_select := or_default (options_hide_results_on_select opts) True \<rparr>)"

definition results_build :: "chosen \<Rightarrow> js_error \<times> chosen + chosen" where
  "results_build s =
     (let s1 = s\<lparr> selected_option_count := None \<rparr>
      in case select_to_array (childNodes (form_field s1)) of
           Inl err \<Rightarrow> Inl (err, s1)
         | Inr rd \<Rightarrow>
             (let s2 = s1\<lparr> results_data := rd \<rparr>
              in Inr (show_search_field_default
                        (update_results_content (results_option_build s2) s2))))"

definition results_update_field :: "chosen \<Rightarrow> js_error \<times> chosen + chosen" where
  "results_update_field s =
     (let s0 = set_default_text s;
          s1 = (if is_multiple s0 then s0
                else s0\<lparr> current_selectedIndex := selectedIndex (form_field s0) \<rparr>)
      in case results_build (result_clear_highlight s1) of
           Inl x \<Rightarrow> Inl x
         | Inr s2 \<Rightarrow> if results_showing s2 then winnow_results s2 else Inr s2)"

definition Chosen :: "select_el \<Rightarrow> options \<Rightarrow> js_error \<times> chosen + chosen" where
  \<comment> \<open>the constructor: defaults, \<open>setup\<close>, \<open>set_up_html\<close> (which builds the results), \<open>on_ready\<close>\<close>
  "Chosen ff opts =
     (let s0 = \<lparr> form_field = ff, widget_options = opts, is_multiple = multiple ff, default_text = [],
                 results_none_found = [], active_field = False, results_showing = False,
                 result_highlight = None, enable_split_word_search = True, group_search = True,
                 search_contains = False, max_selected_options = Infinity,
                 display_selected_options = True, display_disabled_options = True,
                 max_shown_results = Infinity, case_sensitive_search = False,
                 hide_results_on_select = True, current_selectedIndex = selectedIndex ff,
                 results_data = [], selected_option_count = None, search_results = [],
                 search_field = [], triggered = [] \<rparr>;
          s1 = set_default_values (set_default_text s0)
      in case results_build s1 of
           Inl x \<Rightarrow> Inl x
         | Inr s2 \<Rightarrow> Inr (trigger Ready s2))"

section \<open>Event handlers\<close>

text \<open>
  The handlers below are the ones that open and close the results, move the highlight and
  change the selection. Left out: the visible list of choices and the label of the single
  selection (they are written, never read, by these handlers), focus, widths and scrolling,
  and the staged deletion by the backspace key. The control is taken to be enabled.
\<close>

definition results_toggle :: "chosen \<Rightarrow> js_error \<times> chosen + chosen" where
  "results_toggle s = (if results_showing s then Inr (results_hide s) else results_show s)"

definition container_mousedown :: "bool \<Rightarrow> chosen \<Rightarrow> js_error \<times> chosen + chosen" where
  \<comment> \<open>the pointer is pressed on the container; \<open>on_label\<close>: on the label of the single selection\<close>
  "container_mousedown on_label s =
     (case (if active_field s
            then (if is_multiple s \<or> \<not> on_label then Inr s else results_toggle s)
            else results_show (if is_multiple s then s\<lparr> search_field := [] \<rparr> else s)) of
        Inl x \<Rightarrow> Inl x
      | Inr s1 \<Rightarrow> Inr (activate_field s1))"

definition next_active :: "nat \<Rightarrow> li list \<Rightarrow> nat option" where
  \<comment> \<open>\<open>nextAll("li.active-result").first()\<close>\<close>
  "next_active k ls = find (\<lambda>i. hasClass ''active-result'' (ls ! i)) [Suc k ..< length ls]"

definition prev_active :: "nat \<Rightarrow> li list \<Rightarrow> nat option" where
  \<comment> \<open>\<open>prevAll("li.active-result").first()\<close>\<close>
  "prev_active k ls = find (\<lambda>i. hasClass ''active-result'' (ls ! i)) (rev [0 ..< min k (length ls)])"

definition keydown_arrow :: "chosen \<Rightarrow> js_error \<times> chosen + chosen" where
  "keydown_arrow s =
     (case result_highlight s of
        Some k \<Rightarrow>
          if results_showing s then Inr (result_do_highlight (next_active k (search_results s)) s)
          else results_show s
      | None \<Rightarrow> results_show s)"

definition keyup_arrow :: "chosen \<Rightarrow> js_error \<times> chosen + chosen" where
  "keyup_arrow s =
     (if results_showing s \<or> is_multiple s then
        (case result_highlight s of
           None \<Rightarrow> Inr s
         | Some k \<Rightarrow>
             (case prev_active k (search_results s) of
                Some i \<Rightarrow> Inr (result_do_highlight (Some i) s)
              | None \<Rightarrow>
                  (let s1 = (if 0 < fst (choices_count s) then results_hide (snd (choices_count s))
                             else snd (choices_count s))
                   in Inr (result_clear_highlight s1))))
      else results_show s)"

definition search_results_mouseout :: "nat \<Rightarrow> chosen \<Rightarrow> chosen" where
  "search_results_mouseout k s =
     (if k < length (search_results s) \<and> hasClass ''active-result'' (search_results s ! k)
      then result_clear_highlight s
      else s)"

section \<open>Sequences of user and host actions\<close>

datatype action =
    Container_mousedown bool
  | Keyup_escape
  | Keyup_text string
  | Keydown_arrow
  | Keyup_arrow
  | Mouseover nat
  | Mouseout nat
  | Mouseup nat key_event
  | Keyup_enter key_event
  | Choice_destroy nat
  | Close_field
  | Updated "node list"

definition after :: "js_error \<times> chosen + chosen \<Rightarrow> chosen" where
  \<comment> \<open>the widget after a handler has returned or has thrown\<close>
  "after r = (case r of Inl x \<Rightarrow> snd x | Inr s \<Rightarrow> s)"

fun step :: "action \<Rightarrow> chosen \<Rightarrow> js_error \<times> chosen + chosen" where
  "step (Container_mousedown on_label) s = container_mousedown on_label s"
| "step Keyup_escape s = (if results_showing s then Inr (results_hide s) else Inr s)"
| "step (Keyup_text t) s = results_search (s\<lparr> search_field := t \<rparr>)"
| "step Keydown_arrow s = keydown_arrow s"
| "step Keyup_arrow s = keyup_arrow s"
| "step (Mouseover k) s = Inr (search_results_mouseover k s)"
| "step (Mouseout k) s = Inr (search_results_mouseout k s)"
| "step (Mouseup k ev) s = search_results_mouseup k ev s"
| "step (Keyup_enter ev) s = (if results_showing s then result_select ev s else Inr s)"
| "step (Choice_destroy a) s = choice_destroy a s"
| "step Close_field s = Inr (close_field s)"
| "step (Updated ns) s = results_update_field (s\<lparr> form_field := (form_field s)\<lparr> childNodes := ns \<rparr> \<rparr>)"

fun run :: "action list \<Rightarrow> chosen \<Rightarrow> chosen" where
  "run [] s = s"
| "run (a # as) s = run as (after (step a s))"

section \<open>The flat list, as the specification describes it\<close>

text \<open>
  The specification of \<open>parse\<close>: a group entry produces one group record followed by the
  records of its option children, each tagged with the index of the group; any other option
  produces one record; an option with empty text produces a record marked empty. The index of
  a record is its position in the output, and the host index counts the option elements.
  A disabled group disables its children. \<open>flatten\<close> is this description;
  \<open>select_to_array_flatten\<close> below shows that the parser computes it.
\<close>

definition flat_option :: "nat \<Rightarrow> nat \<Rightarrow> nat option \<Rightarrow> string option \<Rightarrow> bool \<Rightarrow> option_el \<Rightarrow> item" where
  "flat_option ai oi gi gl gd el =
     (if opt_text el \<noteq> [] then
        blank_item\<lparr> array_index := ai, options_index := Some oi,
          val := opt_value el, text' := opt_text el, html := opt_innerHTML el,
          title := (if opt_title el \<noteq> [] then Some (opt_title el) else None),
          selected := opt_selected el,
          disabled := (gd \<or> opt_disabled el),
          group_array_index := gi, group_label := gl,
          classes := opt_className el, style := opt_cssText el \<rparr>
      else blank_item\<lparr> array_index := ai, options_index := Some oi, empty := True \<rparr>)"

fun flat_children :: "nat \<Rightarrow> string \<Rightarrow> bool \<Rightarrow> nat \<Rightarrow> nat \<Rightarrow> node list \<Rightarrow> item list" where
  "flat_children gi gl gd ai oi [] = []"
| "flat_children gi gl gd ai oi (OPTION el # cs) =
     flat_option ai oi (Some gi) (Some gl) gd el # flat_children gi gl gd (Suc ai) (Suc oi) cs"
| "flat_children gi gl gd ai oi (c # cs) = flat_children gi gl gd ai oi cs"

definition flat_group :: "nat \<Rightarrow> optgroup_el \<Rightarrow> node list \<Rightarrow> item" where
  "flat_group ai g cs =
     blank_item\<lparr> array_index := ai, group := True,
       label := escapeExpression (JStr (grp_label g)),
       title := (if grp_title g \<noteq> [] then Some (grp_title g) else None),
       children := length (filter (\<lambda>el. opt_text el \<noteq> []) (child_options cs)),
       disabled := grp_disabled g, classes := grp_className g \<rparr>"

fun flatten :: "nat \<Rightarrow> nat \<Rightarrow> node list \<Rightarrow> item list" where
  "flatten ai oi [] = []"
| "flatten ai oi (OPTION el # ns) =
     flat_option ai oi None None False el # flatten (Suc ai) (Suc oi) ns"
| "flatten ai oi (OPTGROUP g cs # ns) =
     flat_group ai g cs #
     flat_children ai (escapeExpression (JStr (grp_label g))) (grp_disabled g) (Suc ai) oi cs @
     flatten (Suc ai + length (child_options cs)) (oi + length (child_options cs)) ns"
| "flatten ai oi (OTHER # ns) = flatten ai oi ns"

fun group_labels :: "node list \<Rightarrow> string list" where
  \<comment> \<open>the labels of the option groups of the control, in document order\<close>
  "group_labels [] = []"
| "group_labels (OPTGROUP g cs # ns) = grp_label g # group_labels ns"
| "group_labels (n # ns) = group_labels ns"

text \<open>\<open>indexed_from f a xs\<close>: the list is \<open>f a, f (a + 1), ...\<close>.\<close>

fun indexed_from :: "(nat \<Rightarrow> 'a) \<Rightarrow> nat \<Rightarrow> 'a list \<Rightarrow> bool" where
  "indexed_from f a [] = True"
| "indexed_from f a (x # xs) = (x = f a \<and> indexed_from f (Suc a) xs)"

definition well_formed :: "item list \<Rightarrow> bool" where
  \<comment> \<open>every record sits at its index; a group record is no option; a record tagged with a
      group comes after the record of that group, with no other group record in between,
      and is disabled when the group is\<close>
  "well_formed rd =
     (\<forall>j < length rd.
        array_index (rd ! j) = j \<and>
        (group (rd ! j) \<longrightarrow>
           group_array_index (rd ! j) = None \<and> \<not> selected (rd ! j) \<and> \<not> empty (rd ! j)) \<and>
        (\<forall>gi. group_array_index (rd ! j) = Some gi \<longrightarrow>
           gi < j \<and> group (rd ! gi) \<and> (disabled (rd ! gi) \<longrightarrow> disabled (rd ! j)) \<and>
           (\<forall>k. gi < k \<and> k \<le> j \<longrightarrow> \<not> group (rd ! k))))"

text \<open>\<open>wf_at rd j\<close>: the conditions of \<open>well_formed\<close> on the record at index \<open>j\<close>.\<close>

definition wf_at :: "item list \<Rightarrow> nat \<Rightarrow> bool" where
  "wf_at rd j =
     (array_index (rd ! j) = j \<and>
      (group (rd ! j) \<longrightarrow>
         group_array_index (rd ! j) = None \<and> \<not> selected (rd ! j) \<and> \<not> empty (rd ! j)) \<and>
      (\<forall>gi. group_array_index (rd ! j) = Some gi \<longrightarrow>
         gi < j \<and> group (rd ! gi) \<and> (disabled (rd ! gi) \<longrightarrow> disabled (rd ! j)) \<and>
         (\<forall>k. gi < k \<and> k \<le> j \<longrightarrow> \<not> group (rd ! k))))"

section \<open>What the claims observe\<close>

definition out :: "js_error \<times> (item list \<times> nat) + item list \<times> nat \<Rightarrow> item list \<times> nat" where
  \<comment> \<open>the flat list and the counter after the loop has ended or has thrown\<close>
  "out r = (case r of Inl x \<Rightarrow> snd x | Inr y \<Rightarrow> y)"

definition stat :: "item \<Rightarrow> item" where
  \<comment> \<open>an entry without the four fields the filter writes\<close>
  "stat it = it\<lparr> search_match := False, group_match := False, active_options := None, search_text := [] \<rparr>"

definition sm :: "item \<Rightarrow> bool \<times> string" where
  \<comment> \<open>the match flag and the search text of an entry\<close>
  "sm it = (search_match it, search_text it)"

definition winnow_pass :: "chosen \<Rightarrow> js_error \<times> (item list \<times> nat) + item list \<times> nat" where
  \<comment> \<open>the loop of \<open>winnow_results\<close> on the whole flat list\<close>
  "winnow_pass s =
     winnow_loop s (get_search_regex s (escape_regex (get_search_text s)))
       (get_highlight_regex s (escape_regex (get_search_text s))) (get_search_text s)
       [0 ..< length (results_data s)] (results_data s, 0)"

definition total_matches :: "chosen \<Rightarrow> nat" where
  \<comment> \<open>the counter \<open>e\<close> of \<open>winnow_results\<close> after its loop\<close>
  "total_matches s = snd (out (winnow_pass s))"

definition same_config :: "chosen \<Rightarrow> chosen \<Rightarrow> bool" where
  \<comment> \<open>two widgets with the same search and display configuration\<close>
  "same_config s t =
     (is_multiple t = is_multiple s \<and> enable_split_word_search t = enable_split_word_search s \<and>
      group_search t = group_search s \<and> search_contains t = search_contains s \<and>
      display_selected_options t = display_selected_options s \<and>
      display_disabled_options t = display_disabled_options s \<and>
      max_shown_results t = max_shown_results s \<and>
      case_sensitive_search t = case_sensitive_search s \<and>
      results_none_found t = results_none_found s)"

definition highlight_pick :: "bool \<Rightarrow> li list \<Rightarrow> nat option" where
  \<comment> \<open>the entry \<open>winnow_results_set_highlight\<close> picks in a rendered list\<close>
  "highlight_pick multi ls =
     (case (if multi then None
            else find_first (\<lambda>l. hasClass ''result-selected'' l \<and> hasClass ''active-result'' l) ls) of
        Some k \<Rightarrow> Some k
      | None \<Rightarrow> find_first (hasClass ''active-result'') ls)"

definition view_highlight :: "chosen \<Rightarrow> item list \<Rightarrow> nat \<Rightarrow> nat option" where
  \<comment> \<open>the highlighted position after \<open>winnow_results\<close>, from the filtered list and the counter\<close>
  "view_highlight s rd e =
     (if e < 1 \<and> get_search_text s \<noteq> [] then None
      else (case highlight_pick (is_multiple s) (results_option_build_loop s rd 0) of
              None \<Rightarrow> None
            | Some k \<Rightarrow> if k < length (results_option_build_loop s rd 0) then Some k else None))"

definition view_list :: "chosen \<Rightarrow> item list \<Rightarrow> nat \<Rightarrow> li list" where
  \<comment> \<open>the rendered list after \<open>winnow_results\<close>, from the filtered list and the counter\<close>
  "view_list s rd e =
     (if e < 1 \<and> get_search_text s \<noteq> [] then [get_no_results_html s (get_search_text s)]
      else (case view_highlight s rd e of
              None \<Rightarrow> results_option_build_loop s rd 0
            | Some k \<Rightarrow> (results_option_build_loop s rd 0)
                          [k := addClass ''highlighted'' (results_option_build_loop s rd 0 ! k)]))"

definition selected_count :: "chosen \<Rightarrow> nat" where
  \<comment> \<open>the number of options of the host control that are selected\<close>
  "selected_count s = length (filter opt_selected (form_options (form_field s)))"

definition count_sel :: "option_el list \<Rightarrow> nat" where
  \<comment> \<open>the number of selected options in a list of host options\<close>
  "count_sel os = length (filter opt_selected os)"


definition within :: "nat \<Rightarrow> jsnum \<Rightarrow> bool" where
  \<comment> \<open>\<open>n <= x\<close> for a count \<open>n\<close>\<close>
  "within n x = (case x of Infinity \<Rightarrow> True | Num m \<Rightarrow> int n \<le> m)"


definition cache_coherent :: "chosen \<Rightarrow> bool" where
  \<comment> \<open>the cached count is empty or is the number of selected host options\<close>
  "cache_coherent s =
     (case selected_option_count s of None \<Rightarrow> True | Some n \<Rightarrow> n = selected_count s)"

definition same_host :: "chosen \<Rightarrow> chosen \<Rightarrow> bool" where
  \<comment> \<open>the host control and the limits are the same; the cache is the same or was filled\<close>
  "same_host s s' =
     (form_field s' = form_field s \<and> is_multiple s' = is_multiple s \<and>
      max_selected_options s' = max_selected_options s \<and>
      (selected_option_count s' = selected_option_count s \<or>
       selected_option_count s' = Some (selected_count s)))"

definition sel_step :: "chosen \<Rightarrow> chosen \<Rightarrow> bool" where
  \<comment> \<open>what one action of the user may do to the selection: the count grows by at most
      one, and only below the limit; the cache stays coherent\<close>
  "sel_step s s' =
     (is_multiple s' = is_multiple s \<and> max_selected_options s' = max_selected_options s \<and>
      multiple (form_field s') = multiple (form_field s) \<and>
      (cache_coherent s \<longrightarrow> cache_coherent s') \<and>
      (cache_coherent s \<and> is_multiple s \<and> multiple (form_field s) \<longrightarrow>
         selected_count s' \<le> selected_count s \<or>
         (\<not> at_most (max_selected_options s) (selected_count s) \<and>
          selected_count s' \<le> Suc (selected_count s))))"

definition deselect_state :: "js_error \<times> chosen + bool \<times> chosen \<Rightarrow> chosen" where
  \<comment> \<open>the widget after \<open>result_deselect\<close> has returned or has thrown\<close>
  "deselect_state r = (case r of Inl x \<Rightarrow> snd x | Inr y \<Rightarrow> snd y)"

definition capacity_ok :: "chosen \<Rightarrow> bool" where
  \<comment> \<open>a multi-select widget whose selection is within its limit\<close>
  "capacity_ok s =
     (cache_coherent s \<and> is_multiple s \<and> multiple (form_field s) \<and>
      within (selected_count s) (max_selected_options s))"

definition user_action :: "action \<Rightarrow> bool" where
  \<comment> \<open>an action of the user on the widget, as opposed to a change of the host list\<close>
  "user_action a = (case a of Updated ns \<Rightarrow> False | _ \<Rightarrow> True)"

text \<open>
  What one round of the loop of \<open>winnow_results\<close> does to the entry it visits and to the
  entry of its group, written out for a well-formed list; \<open>nrm\<close> keeps of an entry what
  its round reads.
\<close>

definition nrm :: "chosen \<Rightarrow> item \<Rightarrow> item" where
  \<comment> \<open>an entry without the fields its round of the filter loop writes before it reads them\<close>
  "nrm s it =
     (if include_option_in_results s it
      then (if group it then stat it else it\<lparr> search_match := False, search_text := [] \<rparr>)
      else it\<lparr> search_match := False \<rparr>)"

definition entry_text :: "item \<Rightarrow> string" where
  "entry_text it = (if group it then label it else html it)"

definition item_pass :: "chosen \<Rightarrow> regexp \<Rightarrow> regexp \<Rightarrow> string \<Rightarrow> item \<Rightarrow> item option \<Rightarrow> item" where
  \<comment> \<open>an entry after its own round of the filter loop; \<open>G\<close> is the entry of its group\<close>
  "item_pass s d b g it G =
     (if \<not> include_option_in_results s it then it\<lparr> search_match := False \<rparr>
      else
        (let it1 = (if group it then it\<lparr> group_match := False, active_options := Some 0 \<rparr> else it)
                     \<lparr> search_match := False, search_text := entry_text it \<rparr>
         in if group it \<and> \<not> group_search s then it1
            else if search_string_match s (entry_text it) d
            then it1\<lparr> search_match := True,
                     search_text := (if g \<noteq> [] then highlight_text (entry_text it) b g
                                     else entry_text it) \<rparr>
            else it1\<lparr> search_match := (case G of None \<Rightarrow> False | Some G' \<Rightarrow> search_match G') \<rparr>))"

definition group_pass :: "chosen \<Rightarrow> regexp \<Rightarrow> item \<Rightarrow> item \<Rightarrow> item" where
  \<comment> \<open>the entry \<open>G\<close> of a group after the round of its option \<open>it\<close>\<close>
  "group_pass s d it G =
     G\<lparr> active_options := map_option Suc (active_options G),
        group_match := (search_string_match s (entry_text it) d \<or> group_match G) \<rparr>"

definition item_count :: "chosen \<Rightarrow> regexp \<Rightarrow> item \<Rightarrow> item option \<Rightarrow> nat \<Rightarrow> nat" where
  \<comment> \<open>the match counter after the round of an entry\<close>
  "item_count s d it G e =
     (if \<not> include_option_in_results s it then e
      else
        (let e1 = (case G of
                     None \<Rightarrow> e
                   | Some G' \<Rightarrow> if active_options G' = Some 0 \<and> search_match G' then e + 1 else e)
         in if \<not> group it \<and> search_string_match s (entry_text it) d then e1 + 1 else e1))"

definition step_result ::
  "chosen \<Rightarrow> regexp \<Rightarrow> regexp \<Rightarrow> string \<Rightarrow> nat \<Rightarrow> item list \<Rightarrow> nat \<Rightarrow> item list \<Rightarrow> bool" where
  "step_result s d b g j A e A' \<longleftrightarrow>
     winnow_item s d b g j (A, e) =
       Inr (A', item_count s d (A ! j) (map_option ((!) A) (group_array_index (A ! j))) e) \<and>
     length A' = length A \<and>
     A' ! j = item_pass s d b g (A ! j) (map_option ((!) A) (group_array_index (A ! j))) \<and>
     (\<forall>i. i \<noteq> j \<longrightarrow>
        A' ! i = (if include_option_in_results s (A ! j) \<and> group_array_index (A ! j) = Some i
                  then group_pass s d (A ! j) (A ! i) else A ! i))"

section \<open>Example inputs\<close>

definition no_options :: options where
  "no_options = \<lparr> options_enable_split_word_search = None, options_group_search = None,
     options_search_contains = None, options_max_selected_options = None,
     options_display_selected_options = None, options_display_disabled_options = None,
     options_max_shown_results = None, options_case_sensitive_search = None,
     options_hide_results_on_select = None, options_placeholder_text = [],
     options_no_results_text = [] \<rparr>"

definition opt :: "string \<Rightarrow> bool \<Rightarrow> option_el" where
  "opt t sel = \<lparr> opt_text = t, opt_value = t, opt_innerHTML = t, opt_title = [],
     opt_selected = sel, opt_disabled = False, opt_className = [], opt_cssText = [] \<rparr>"

definition fruit :: "node list" where
  "fruit = [OPTION (opt [] False), OPTION (opt ''Apple'' False),
            OPTGROUP \<lparr> grp_label = ''Citrus'', grp_title = [], grp_disabled = False,
                       grp_className = [] \<rparr>
              [OTHER, OPTION (opt ''Lemon'' False), OPTION (opt [] False), OPTION (opt ''Lime'' False)],
            OPTION (opt ''avocado'' False)]"

definition with_ctrl :: key_event where
  "with_ctrl = \<lparr> metaKey = False, ctrlKey = True \<rparr>"

definition no_modifier :: key_event where
  "no_modifier = \<lparr> metaKey = False, ctrlKey = False \<rparr>"

definition fruit_select :: select_el where
  "fruit_select = \<lparr> multiple = True, childNodes = fruit \<rparr>"

definition max_options :: "int \<Rightarrow> options" where
  "max_options m = no_options\<lparr> options_max_selected_options := Some (Num m) \<rparr>"

definition select_two :: "action list" where
  "select_two = [Container_mousedown False, Keyup_enter with_ctrl, Mouseover 2,
                 Keyup_enter with_ctrl, Mouseover 3]"

definition fruit_widget :: "int \<Rightarrow> chosen" where
  \<comment> \<open>a multi-select widget on the fruit list with the given \<open>max_selected_options\<close>\<close>
  "fruit_widget m =
     after (Chosen \<lparr> multiple = True, childNodes = fruit \<rparr>
              (no_options\<lparr> options_max_selected_options := Some (Num m) \<rparr>))"

definition opened :: chosen where
  \<comment> \<open>the fruit widget with limit 1, opened\<close>
  "opened = run [Container_mousedown False] (after (Chosen fruit_select (max_options 1)))"

definition apple_selected :: chosen where
  \<comment> \<open>Apple is selected, the limit is reached and Lemon is highlighted\<close>
  "apple_selected = run [Keyup_enter with_ctrl, Mouseover 2] opened"

definition stuck_widget :: chosen where
  \<comment> \<open>a widget with a negative limit and an entry highlighted\<close>
  "stuck_widget = (after (Chosen fruit_select (max_options (- 1))))\<lparr> result_highlight := Some 0 \<rparr>"

definition opened_unbounded :: chosen where
  \<comment> \<open>the fruit widget without a limit, opened, with an empty search text\<close>
  "opened_unbounded = run [Container_mousedown False] (after (Chosen fruit_select no_options))"

definition typed_zz :: chosen where
  \<comment> \<open>the same widget with a search text that matches nothing\<close>
  "typed_zz = opened_unbounded\<lparr> search_field := ''zz'' \<rparr>"

definition locked :: chosen where
  \<comment> \<open>a multi-select widget whose only option is selected and disabled on the host\<close>
  "locked = after (Chosen \<lparr> multiple = True,
       childNodes = [OPTION ((opt ''Apple'' True)\<lparr> opt_disabled := True \<rparr>)] \<rparr> no_options)"

definition plain_widget :: chosen where
  "plain_widget = \<lparr> form_field = \<lparr> multiple = True, childNodes = [] \<rparr>, widget_options = no_options,
     is_multiple = True, default_text = ''Select Some Options'',
     results_none_found = ''No results match'', active_field = False, results_showing = False,
     result_highlight = None, enable_split_word_search = True, group_search = True,
     search_contains = False, max_selected_options = Infinity, display_selected_options = True,
     display_disabled_options = True, max_shown_results = Infinity,
     case_sensitive_search = False, hide_results_on_select = True, current_selectedIndex = - 1,
     results_data = [], selected_option_count = None, search_results = [], search_field = [],
     triggered = [] \<rparr>"

section \<open>The parser computes the flat list\<close>

lemma add_option_top:
  "add_option (OPTION el) None None p =
     Inr \<lparr> parser_options_index = Suc (parser_options_index p),
           parsed = parsed p @ [flat_option (length (parsed p)) (parser_options_index p) None None False el] \<rparr>"
  by (simp add: add_option_def flat_option_def)

lemma add_option_child:
  "gi < length (parsed p) \<Longrightarrow>
   add_option (OPTION el) (Some gi) (Some gd) p =
     Inr \<lparr> parser_options_index = Suc (parser_options_index p),
           parsed = (parsed p)[gi := (parsed p ! gi)\<lparr> children := children (parsed p ! gi) +
                        (if opt_text el \<noteq> [] then 1 else 0) \<rparr>] @
                    [flat_option (length (parsed p)) (parser_options_index p) (Some gi)
                       (Some (label (parsed p ! gi))) gd el] \<rparr>"
  by (simp add: add_option_def flat_option_def Let_def)

lemma add_option_other:
  "(\<And>el. a \<noteq> OPTION el) \<Longrightarrow> add_option a b c p = Inr p"
  by (cases a) (auto simp: add_option_def)

lemma length_flat_children:
  "length (flat_children gi gl gd ai oi cs) = length (child_options cs)"
  by (induction gi gl gd ai oi cs rule: flat_children.induct) auto

lemma add_options_flat:
  "gi < length (parsed p) \<Longrightarrow>
   add_options cs (Some gi) (Some gd) p =
     Inr \<lparr> parser_options_index = parser_options_index p + length (child_options cs),
           parsed = (parsed p)[gi := (parsed p ! gi)\<lparr> children := children (parsed p ! gi) +
                        length (filter (\<lambda>el. opt_text el \<noteq> []) (child_options cs)) \<rparr>] @
                    flat_children gi (label (parsed p ! gi)) gd (length (parsed p))
                      (parser_options_index p) cs \<rparr>"
proof (induction cs arbitrary: p)
  case Nil
  then show ?case by simp
next
  case (Cons c cs)
  show ?case
  proof (cases c)
    case (OPTION el)
    show ?thesis
      using Cons.prems
      by (simp add: OPTION add_option_child Cons.IH nth_append list_update_append1)
  next
    case (OPTGROUP g' cs')
    then show ?thesis using Cons.prems by (simp add: add_option_other Cons.IH)
  next
    case OTHER
    then show ?thesis using Cons.prems by (simp add: add_option_other Cons.IH)
  qed
qed

lemma add_group_flat:
  "add_group g cs p =
     Inr \<lparr> parser_options_index = parser_options_index p + length (child_options cs),
           parsed = parsed p @ flat_group (length (parsed p)) g cs #
                    flat_children (length (parsed p)) (escapeExpression (JStr (grp_label g)))
                      (grp_disabled g) (Suc (length (parsed p))) (parser_options_index p) cs \<rparr>"
  by (simp add: add_group_def Let_def add_options_flat flat_group_def nth_append)

lemma add_nodes_flat:
  "add_nodes ns p =
     Inr \<lparr> parser_options_index = parser_options_index p + length (concat (map el_options ns)),
           parsed = parsed p @ flatten (length (parsed p)) (parser_options_index p) ns \<rparr>"
proof (induction ns arbitrary: p)
  case Nil
  then show ?case by simp
next
  case (Cons a ns)
  show ?case
  proof (cases a)
    case (OPTION el)
    then show ?thesis by (simp add: add_node_def add_option_top Cons.IH)
  next
    case (OPTGROUP g cs)
    then show ?thesis
      by (simp add: add_node_def add_group_flat Cons.IH length_flat_children)
  next
    case OTHER
    then show ?thesis by (simp add: add_node_def add_option_other Cons.IH)
  qed
qed

lemma select_to_array_flatten: "select_to_array ns = Inr (flatten 0 0 ns)"
  by (simp add: select_to_array_def add_nodes_flat)

lemma indexed_from_append:
  "indexed_from f a (xs @ ys) = (indexed_from f a xs \<and> indexed_from f (a + length xs) ys)"
  by (induction xs arbitrary: a) auto

lemma indexed_from_upt: "indexed_from f a xs = (xs = map f [a ..< a + length xs])"
proof (induction xs arbitrary: a)
  case Nil
  show ?case by simp
next
  case (Cons x xs)
  have "[a ..< a + length (x # xs)] = a # [Suc a ..< Suc a + length xs]"
    by (rule trans [OF upt_conv_Cons]) simp_all
  then show ?case using Cons.IH [of "Suc a"] by (simp del: upt_Suc)
qed


lemma flat_option_fields [simp]:
  "group (flat_option ai oi gi gl gd el) = False"
  "empty (flat_option ai oi gi gl gd el) = (opt_text el = [])"
  "array_index (flat_option ai oi gi gl gd el) = ai"
  "options_index (flat_option ai oi gi gl gd el) = Some oi"
  "group_array_index (flat_option ai oi gi gl gd el) = (if opt_text el = [] then None else gi)"
  "disabled (flat_option ai oi gi gl gd el) = (opt_text el \<noteq> [] \<and> (gd \<or> opt_disabled el))"
  "selected (flat_option ai oi gi gl gd el) = (opt_text el \<noteq> [] \<and> opt_selected el)"
  "text' (flat_option ai oi gi gl gd el) = opt_text el"
  "html (flat_option ai oi gi gl gd el) = (if opt_text el = [] then [] else opt_innerHTML el)"
  by (simp_all add: flat_option_def blank_item_def)

lemma flat_group_fields [simp]:
  "group (flat_group ai g cs) = True"
  "empty (flat_group ai g cs) = False"
  "selected (flat_group ai g cs) = False"
  "array_index (flat_group ai g cs) = ai"
  "group_array_index (flat_group ai g cs) = None"
  "disabled (flat_group ai g cs) = grp_disabled g"
  "label (flat_group ai g cs) = escapeExpression (JStr (grp_label g))"
  "children (flat_group ai g cs) = length (filter (\<lambda>el. opt_text el \<noteq> []) (child_options cs))"
  by (simp_all add: flat_group_def blank_item_def)

lemma length_flatten_children [simp]:
  "length (flat_children gi gl gd ai oi cs) = length (child_options cs)"
  by (rule length_flat_children)

lemma flat_children_empty:
  "map empty (flat_children gi gl gd ai oi cs) = map (\<lambda>el. opt_text el = []) (child_options cs)"
  by (induction gi gl gd ai oi cs rule: flat_children.induct)
     simp_all

lemma flat_children_array_index:
  "indexed_from (\<lambda>i. i) ai (map array_index (flat_children gi gl gd ai oi cs))"
  by (induction gi gl gd ai oi cs rule: flat_children.induct)
     simp_all

lemma flat_children_options_index:
  "indexed_from Some oi (map options_index (flat_children gi gl gd ai oi cs))"
  by (induction gi gl gd ai oi cs rule: flat_children.induct)
     simp_all

lemma flat_children_group:
  "it \<in> set (flat_children gi gl gd ai oi cs) \<Longrightarrow>
     \<not> group it \<and> group_array_index it = (if empty it then None else Some gi) \<and>
     (gd \<longrightarrow> \<not> empty it \<longrightarrow> disabled it)"
  by (induction gi gl gd ai oi cs rule: flat_children.induct)
     auto

lemma flatten_append:
  "flatten ai oi (xs @ ys) =
     flatten ai oi xs @
     flatten (ai + length (flatten ai oi xs)) (oi + length (concat (map el_options xs))) ys"
  by (induction ai oi xs rule: flatten.induct) (simp_all add: add.assoc)

lemma flatten_array_index: "indexed_from (\<lambda>i. i) ai (map array_index (flatten ai oi ns))"
  by (induction ai oi ns rule: flatten.induct)
     (simp_all add: indexed_from_append
        flat_children_array_index)

lemma filter_nongroup_flat_children:
  "filter (\<lambda>it. \<not> group it) (flat_children gi gl gd ai oi cs) = flat_children gi gl gd ai oi cs"
  by (induction gi gl gd ai oi cs rule: flat_children.induct)
     simp_all

lemma flatten_options_index:
  "indexed_from Some oi (map options_index (filter (\<lambda>it. \<not> group it) (flatten ai oi ns)))"
  by (induction ai oi ns rule: flatten.induct)
     (simp_all add: indexed_from_append
        flat_children_options_index filter_nongroup_flat_children)

lemma length_nongroup_flatten:
  "length (filter (\<lambda>it. \<not> group it) (flatten ai oi ns)) = length (concat (map el_options ns))"
  by (induction ai oi ns rule: flatten.induct)
     (simp_all add: filter_nongroup_flat_children)

lemma flatten_empty:
  "map empty (filter (\<lambda>it. \<not> group it) (flatten ai oi ns)) =
   map (\<lambda>el. opt_text el = []) (concat (map el_options ns))"
  by (induction ai oi ns rule: flatten.induct)
     (simp_all add: filter_nongroup_flat_children
        flat_children_empty)

lemma map_text_flat_children:
  "map text' (filter (\<lambda>it. \<not> group it \<and> \<not> empty it) (flat_children gi gl gd ai oi cs)) =
   map opt_text (filter (\<lambda>el. opt_text el \<noteq> []) (child_options cs))"
  by (induction gi gl gd ai oi cs rule: flat_children.induct)
     auto

lemma map_text_flatten:
  "map text' (filter (\<lambda>it. \<not> group it \<and> \<not> empty it) (flatten ai oi ns)) =
   map opt_text (filter (\<lambda>el. opt_text el \<noteq> []) (concat (map el_options ns)))"
  by (induction ai oi ns rule: flatten.induct)
     (auto simp: map_text_flat_children)


lemma indexed_from_map_upt:
  "indexed_from f a xs \<Longrightarrow> length xs = n \<Longrightarrow> xs = map f [a ..< a + n]"
  using indexed_from_upt [of f a xs] by simp

lemma indexed_from_id_upt:
  "indexed_from (\<lambda>i. i) a xs \<Longrightarrow> length xs = n \<Longrightarrow> xs = [a ..< a + n]"
  using indexed_from_upt [of "\<lambda>i. i" a xs] by simp

text \<open>
  Claim C10. Take any option group of the host list, with the nodes \<open>pre\<close> before it and
  \<open>post\<close> after it. Its record sits right after the records of \<open>pre\<close>, and its
  \<open>children\<close> count is the number of its option children with non-empty text. The
  records that follow are its option children, one each, also for a child with empty text:
  such a child has a record with its own index and host index, marked empty, and is not
  counted.
\<close>

theorem group_children_count:
  "\<exists>rd0 rd. select_to_array pre = Inr rd0 \<and>
     select_to_array (pre @ OPTGROUP g cs # post) = Inr rd \<and>
     (let gi = length rd0;
          kids = take (length (child_options cs)) (drop (Suc gi) rd);
          oi = length (concat (map el_options pre))
      in take gi rd = rd0 \<and> group (rd ! gi) \<and> array_index (rd ! gi) = gi \<and>
         children (rd ! gi) = length (filter (\<lambda>el. opt_text el \<noteq> []) (child_options cs)) \<and>
         children (rd ! gi) = length (filter (\<lambda>it. \<not> empty it) kids) \<and>
         map empty kids = map (\<lambda>el. opt_text el = []) (child_options cs) \<and>
         map array_index kids = [Suc gi ..< Suc gi + length (child_options cs)] \<and>
         map options_index kids = map Some [oi ..< oi + length (child_options cs)])"
proof -
  define A where "A = flatten 0 0 pre"
  define oi where "oi = length (concat (map el_options pre))"
  define K where "K = flat_children (length A) (escapeExpression (JStr (grp_label g)))
                        (grp_disabled g) (Suc (length A)) oi cs"
  define B where "B = flatten (Suc (length A) + length (child_options cs))
                        (oi + length (child_options cs)) post"
  have rd: "flatten 0 0 (pre @ OPTGROUP g cs # post) = A @ flat_group (length A) g cs # K @ B"
    by (simp add: flatten_append A_def K_def B_def oi_def)
  have lenK: "length K = length (child_options cs)"
    by (simp add: K_def)
  have kids: "take (length (child_options cs)) (drop (Suc (length A)) (A @ flat_group (length A) g cs # K @ B)) = K"
    by (simp add: lenK)
  have e: "map empty K = map (\<lambda>el. opt_text el = []) (child_options cs)"
    by (simp add: K_def flat_children_empty)
  have "length (filter (\<lambda>it. \<not> empty it) K) = length (filter (\<lambda>b. \<not> b) (map empty K))"
    by (simp add: filter_map comp_def)
  also have "\<dots> = length (filter (\<lambda>el. opt_text el \<noteq> []) (child_options cs))"
    by (simp add: e filter_map comp_def)
  finally have cnt: "length (filter (\<lambda>it. \<not> empty it) K) =
      length (filter (\<lambda>el. opt_text el \<noteq> []) (child_options cs))" .
  have ai: "map array_index K = [Suc (length A) ..< Suc (length A) + length (child_options cs)]"
    unfolding K_def by (rule indexed_from_id_upt [OF flat_children_array_index]) simp
  have oi: "map options_index K = map Some [oi ..< oi + length (child_options cs)]"
    unfolding K_def by (rule indexed_from_map_upt [OF flat_children_options_index]) simp
  have G: "(A @ flat_group (length A) g cs # K @ B) ! length A = flat_group (length A) g cs"
    by simp
  have T: "take (length A) (A @ flat_group (length A) g cs # K @ B) = A"
    by simp
  show ?thesis
    unfolding select_to_array_flatten rd Let_def A_def [symmetric] oi_def [symmetric]
    apply (rule exI [of _ A], rule exI [of _ "A @ flat_group (length A) g cs # K @ B"])
    apply (simp only: kids G T flat_group_fields cnt e ai oi simp_thms)
    done
qed


section \<open>Escaping\<close>

lemma replace_specials_id: "\<not> list_ex is_special s \<Longrightarrow> replace_specials s = s"
  by (induction s) (auto simp: is_special_def)

lemma escapeExpression_JStr: "escapeExpression (JStr s) = replace_specials s"
  by (auto simp: escapeExpression_def replace_specials_id list_ex_iff)

lemma takeWhile_word_sep:
  "\<not> is_word_char c \<Longrightarrow> (takeWhile is_word_char (r @ c # ys) = []) = (takeWhile is_word_char r = [])"
  by (induction r) auto

lemma dropWhile_word_sep:
  "\<not> is_word_char c \<Longrightarrow> c \<noteq> CHR '';'' \<Longrightarrow>
   (case dropWhile is_word_char (r @ c # ys) of [] \<Rightarrow> False | d # _ \<Rightarrow> d = CHR '';'') =
   (case dropWhile is_word_char r of [] \<Rightarrow> False | d # _ \<Rightarrow> d = CHR '';'')"
  by (induction r) auto

lemma entity_follows_sep:
  "\<not> is_word_char c \<Longrightarrow> c \<noteq> CHR '';'' \<Longrightarrow> entity_follows (r @ c # ys) = entity_follows r"
  by (simp add: entity_follows_def takeWhile_word_sep dropWhile_word_sep)

lemma replace_specials_sep:
  "\<not> is_word_char c \<Longrightarrow> c \<noteq> CHR '';'' \<Longrightarrow>
   replace_specials (xs @ c # ys) = replace_specials xs @ replace_specials (c # ys)"
  by (induction xs) (simp_all add: entity_follows_sep)



lemma escape_special:
  "\<not> is_word_char c \<Longrightarrow> c \<noteq> CHR '';'' \<Longrightarrow>
   escapeExpression (JStr (xs @ c # ys)) =
     escapeExpression (JStr xs) @ replace_specials (c # ys)"
  by (simp add: escapeExpression_JStr replace_specials_sep del: replace_specials.simps)

lemma nonword: "\<not> is_word_char CHR ''<''" "\<not> is_word_char CHR ''>''" "\<not> is_word_char CHR ''&''"
  "\<not> is_word_char CHR 0x22"  "\<not> is_word_char CHR 0x27"  "\<not> is_word_char CHR 0x60"
  by (simp_all add: is_word_char_def)

lemma map_html_flat_children:
  "map html (filter (\<lambda>it. \<not> group it \<and> \<not> empty it) (flat_children gi gl gd ai oi cs)) =
   map opt_innerHTML (filter (\<lambda>el. opt_text el \<noteq> []) (child_options cs))"
  by (induction gi gl gd ai oi cs rule: flat_children.induct)
     (auto simp: flat_option_def blank_item_def)

lemma map_html_flatten:
  "map html (filter (\<lambda>it. \<not> group it \<and> \<not> empty it) (flatten ai oi ns)) =
   map opt_innerHTML (filter (\<lambda>el. opt_text el \<noteq> []) (concat (map el_options ns)))"
  by (induction ai oi ns rule: flatten.induct)
     (auto simp: flat_option_def flat_group_def blank_item_def map_html_flat_children)

lemma no_group_flat_children: "filter group (flat_children gi gl gd ai oi cs) = []"
  by (induction gi gl gd ai oi cs rule: flat_children.induct)
     (auto simp: flat_option_def blank_item_def)

lemma map_label_flatten:
  "map label (filter group (flatten ai oi ns)) =
   map (\<lambda>l. escapeExpression (JStr l)) (group_labels ns)"
  by (induction ai oi ns rule: flatten.induct)
     (auto simp: flat_option_def flat_group_def blank_item_def no_group_flat_children)


text \<open>
  Claim C4, as the code has it. \<open>escapeExpression\<close> replaces every occurrence of
  \<open><\<close>, \<open>>\<close>, the double quote, the single quote and the backquote by its entity. An
  ampersand becomes \<open>&amp;\<close> unless word characters and a semicolon follow it, that is
  unless it already starts an entity; then it is kept. The parser escapes the label of a
  group and takes the markup of an option (its \<open>innerHTML\<close>) as it is.
\<close>

theorem escapeExpression_entities:
  "escapeExpression (JStr (xs @ CHR ''<'' # ys)) = escapeExpression (JStr xs) @ ''&lt;'' @ escapeExpression (JStr ys) \<and>
   escapeExpression (JStr (xs @ CHR ''>'' # ys)) = escapeExpression (JStr xs) @ ''&gt;'' @ escapeExpression (JStr ys) \<and>
   escapeExpression (JStr (xs @ CHR 0x22 # ys)) = escapeExpression (JStr xs) @ ''&quot;'' @ escapeExpression (JStr ys) \<and>
   escapeExpression (JStr (xs @ CHR 0x27 # ys)) = escapeExpression (JStr xs) @ ''&#x27;'' @ escapeExpression (JStr ys) \<and>
   escapeExpression (JStr (xs @ CHR 0x60 # ys)) = escapeExpression (JStr xs) @ ''&#x60;'' @ escapeExpression (JStr ys) \<and>
   escapeExpression (JStr (xs @ CHR ''&'' # ys)) =
     escapeExpression (JStr xs) @ (if entity_follows ys then ''&'' else ''&amp;'') @ escapeExpression (JStr ys) \<and>
   (\<exists>rd. select_to_array ns = Inr rd \<and>
      map label (filter group rd) = map (\<lambda>l. escapeExpression (JStr l)) (group_labels ns) \<and>
      map html (filter (\<lambda>it. \<not> group it \<and> \<not> empty it) rd) =
        map opt_innerHTML (filter (\<lambda>el. opt_text el \<noteq> []) (concat (map el_options ns))))"
proof -
  have amp: "replace_specials (CHR ''&'' # ys) =
      (if entity_follows ys then ''&'' else ''&amp;'') @ escapeExpression (JStr ys)"
    by (simp add: escapeExpression_JStr entity_of_def)
  have other: "replace_specials (c # ys) = the (entity_of c) @ escapeExpression (JStr ys)"
    if "c \<in> {CHR ''<'', CHR ''>'', CHR 0x22, CHR 0x27, CHR 0x60}" for c
    using that by (auto simp: escapeExpression_JStr entity_of_def)
  have parse: "\<exists>rd. select_to_array ns = Inr rd \<and>
      map label (filter group rd) = map (\<lambda>l. escapeExpression (JStr l)) (group_labels ns) \<and>
      map html (filter (\<lambda>it. \<not> group it \<and> \<not> empty it) rd) =
        map opt_innerHTML (filter (\<lambda>el. opt_text el \<noteq> []) (concat (map el_options ns)))"
    by (simp add: select_to_array_flatten map_html_flatten map_label_flatten)
  show ?thesis
    using parse by (simp add: escape_special nonword amp other entity_of_def del: replace_specials.simps)
qed


text \<open>
  The claim as written says every ampersand is replaced. In \<open>R&D;\<close> the ampersand is
  followed by a word character and a semicolon, and the text comes back unchanged.
\<close>

theorem escapeExpression_keeps_entity:
  "CHR ''&'' \<in> set ''R&D;'' \<and> escapeExpression (JStr ''R&D;'') = ''R&D;'' \<and>
   escapeExpression (JStr ''R&D;'') \<noteq> ''R&amp;D;''"
  by (simp add: escapeExpression_def is_special_def entity_follows_def is_word_char_def)

section \<open>The search patterns\<close>

lemma parse_escape_regex: "parse_pattern (escape_regex g) = map ALit g"
  by (induction g) (auto simp: is_regex_special_def is_space_def)

text \<open>
  Claim C3, as the code has it. The highlight pattern has the same escaped query and the same
  flags as the match pattern. In "contains" mode neither has an assertion in front. Otherwise
  the match pattern starts with \<open>^\<close> (the start of the text) and the highlight pattern
  starts with \<open>\b\<close> (a word boundary): it is anchored too, to the start of a word.
\<close>

theorem highlight_regex_word_boundary:
  "get_search_regex s a =
     \<lparr> source = (if search_contains s then a else CHR ''^'' # a),
       flags = (if case_sensitive_search s then [] else ''i'') \<rparr> \<and>
   get_highlight_regex s a =
     \<lparr> source = (if search_contains s then a else CHR 0x5C # CHR ''b'' # a),
       flags = flags (get_search_regex s a) \<rparr> \<and>
   parse_pattern (source (get_search_regex s (escape_regex g))) =
     (if search_contains s then [] else [AStart]) @ map ALit g \<and>
   parse_pattern (source (get_highlight_regex s (escape_regex g))) =
     (if search_contains s then [] else [AWordB]) @ map ALit g"
  by (simp add: get_search_regex_def get_highlight_regex_def parse_escape_regex)

text \<open>
  The claim as written says the highlight pattern carries no anchoring. With "contains"
  mode off, the highlight pattern for \<open>lan\<close> is not the bare query, and it does not find
  \<open>lan\<close> inside \<open>Zealand\<close>, where the bare query matches at position 7.
\<close>

theorem highlight_regex_is_anchored:
  "\<not> search_contains plain_widget \<and>
   source (get_highlight_regex plain_widget (escape_regex ''lan'')) \<noteq> escape_regex ''lan'' \<and>
   regex_search (get_highlight_regex plain_widget (escape_regex ''lan'')) ''New Zealand'' = - 1 \<and>
   regex_search \<lparr> source = escape_regex ''lan'', flags = ''i'' \<rparr> ''New Zealand'' = 7"
  by code_simp

text \<open>
  Claim C8. With split-word search on, matching from the start and ignoring case, the query
  \<open>lan\<close> does not match the text \<open>New Zealand\<close> and the query \<open>Zea\<close> matches it.
\<close>

theorem split_word_search_New_Zealand:
  assumes "enable_split_word_search s" and "\<not> search_contains s" and "\<not> case_sensitive_search s"
  shows "\<not> search_string_match s ''New Zealand'' (get_search_regex s (escape_regex ''lan'')) \<and>
         search_string_match s ''New Zealand'' (get_search_regex s (escape_regex ''Zea''))"
proof -
  have r: "get_search_regex s a = \<lparr> source = CHR ''^'' # a, flags = ''i'' \<rparr>" for a
    using assms by (simp add: get_search_regex_def)
  have whole: "\<not> regex_test \<lparr> source = CHR ''^'' # escape_regex ''lan'', flags = ''i'' \<rparr> ''New Zealand''"
    by code_simp
  have no_token: "\<not> list_ex (regex_test \<lparr> source = CHR ''^'' # escape_regex ''lan'', flags = ''i'' \<rparr>)
             (split CHR '' '' (filter (\<lambda>c. c \<noteq> CHR ''['' \<and> c \<noteq> CHR '']'') ''New Zealand''))"
    by code_simp
  have token: "list_ex (regex_test \<lparr> source = CHR ''^'' # escape_regex ''Zea'', flags = ''i'' \<rparr>)
             (split CHR '' '' (filter (\<lambda>c. c \<noteq> CHR ''['' \<and> c \<noteq> CHR '']'') ''New Zealand''))"
    by code_simp
  show ?thesis
    unfolding search_string_match_def r using whole no_token token assms(1) by simp
qed

theorem split_word_search_New_Zealand_witness:
  "enable_split_word_search plain_widget \<and> \<not> search_contains plain_widget \<and>
   \<not> case_sensitive_search plain_widget \<and>
   \<not> search_string_match plain_widget ''New Zealand''
       (get_search_regex plain_widget (escape_regex ''lan'')) \<and>
   search_string_match plain_widget ''New Zealand''
     (get_search_regex plain_widget (escape_regex ''Zea''))"
proof -
  have h: "enable_split_word_search plain_widget" "\<not> search_contains plain_widget"
    "\<not> case_sensitive_search plain_widget"
    by (simp_all add: plain_widget_def)
  from split_word_search_New_Zealand [OF h] h show ?thesis by blast
qed

section \<open>The selection count and its cache\<close>

lemma same_host_refl [simp]: "same_host s s"
  by (simp add: same_host_def)

lemma same_host_trans: "same_host s s1 \<Longrightarrow> same_host s1 s2 \<Longrightarrow> same_host s s2"
  by (auto simp: same_host_def selected_count_def)

lemma same_host_coherent:
  "same_host s s' \<Longrightarrow> cache_coherent s \<Longrightarrow> cache_coherent s' \<and> selected_count s' = selected_count s"
  by (auto simp: same_host_def cache_coherent_def selected_count_def split: option.splits)

lemma same_hostI:
  "form_field s' = form_field s \<Longrightarrow> is_multiple s' = is_multiple s \<Longrightarrow>
   max_selected_options s' = max_selected_options s \<Longrightarrow>
   selected_option_count s' = selected_option_count s \<Longrightarrow> same_host s s'"
  by (simp add: same_host_def)

lemma helper_fields [simp]:
  "form_field (trigger ev s) = form_field s"
  "is_multiple (trigger ev s) = is_multiple s"
  "max_selected_options (trigger ev s) = max_selected_options s"
  "selected_option_count (trigger ev s) = selected_option_count s"
  "form_field (update_results_content c s) = form_field s"
  "is_multiple (update_results_content c s) = is_multiple s"
  "max_selected_options (update_results_content c s) = max_selected_options s"
  "selected_option_count (update_results_content c s) = selected_option_count s"
  "form_field (no_results g s) = form_field s"
  "is_multiple (no_results g s) = is_multiple s"
  "max_selected_options (no_results g s) = max_selected_options s"
  "selected_option_count (no_results g s) = selected_option_count s"
  "form_field (no_results_clear s) = form_field s"
  "is_multiple (no_results_clear s) = is_multiple s"
  "max_selected_options (no_results_clear s) = max_selected_options s"
  "selected_option_count (no_results_clear s) = selected_option_count s"
  "form_field (result_clear_highlight s) = form_field s"
  "is_multiple (result_clear_highlight s) = is_multiple s"
  "max_selected_options (result_clear_highlight s) = max_selected_options s"
  "selected_option_count (result_clear_highlight s) = selected_option_count s"
  "form_field (reset_single_select_options s) = form_field s"
  "is_multiple (reset_single_select_options s) = is_multiple s"
  "max_selected_options (reset_single_select_options s) = max_selected_options s"
  "selected_option_count (reset_single_select_options s) = selected_option_count s"
  "form_field (activate_field s) = form_field s"
  "is_multiple (activate_field s) = is_multiple s"
  "max_selected_options (activate_field s) = max_selected_options s"
  "selected_option_count (activate_field s) = selected_option_count s"
  "form_field (trigger_form_field_change a s) = form_field s"
  "is_multiple (trigger_form_field_change a s) = is_multiple s"
  "max_selected_options (trigger_form_field_change a s) = max_selected_options s"
  "selected_option_count (trigger_form_field_change a s) = selected_option_count s"
  by (simp_all add: trigger_def update_results_content_def no_results_def
        no_results_clear_def result_clear_highlight_def reset_single_select_options_def
        activate_field_def trigger_form_field_change_def split: option.splits)

lemma do_highlight_fields [simp]:
  "form_field (result_do_highlight a s) = form_field s"
  "is_multiple (result_do_highlight a s) = is_multiple s"
  "max_selected_options (result_do_highlight a s) = max_selected_options s"
  "selected_option_count (result_do_highlight a s) = selected_option_count s"
  by (simp_all add: result_do_highlight_def Let_def split: option.splits)

lemma set_highlight_fields [simp]:
  "form_field (winnow_results_set_highlight s) = form_field s"
  "is_multiple (winnow_results_set_highlight s) = is_multiple s"
  "max_selected_options (winnow_results_set_highlight s) = max_selected_options s"
  "selected_option_count (winnow_results_set_highlight s) = selected_option_count s"
  by (simp_all add: winnow_results_set_highlight_def Let_def)

lemma winnow_results_fields [simp]:
  "form_field (after (winnow_results s)) = form_field s"
  "is_multiple (after (winnow_results s)) = is_multiple s"
  "max_selected_options (after (winnow_results s)) = max_selected_options s"
  "selected_option_count (after (winnow_results s)) = selected_option_count s"
  by (simp_all add: winnow_results_def Let_def after_def split: sum.splits prod.splits)

lemma same_host_winnow [simp]: "same_host s (after (winnow_results s))"
  by (simp add: same_host_def)


lemma after_simps [simp]:
  "after (Inr s) = s"
  "after (Inl x) = snd x"
  "after (case r of Inl x \<Rightarrow> Inl x | Inr s' \<Rightarrow> Inr (f s')) =
     (case r of Inl x \<Rightarrow> snd x | Inr s' \<Rightarrow> f s')"
  by (simp_all add: after_def split: sum.splits)

lemma same_host_after_bind:
  "same_host s (after r) \<Longrightarrow> (\<And>s'. same_host s' (f s')) \<Longrightarrow>
   same_host s (case r of Inl x \<Rightarrow> snd x | Inr s' \<Rightarrow> f s')"
  by (cases r) (auto simp: after_def intro: same_host_trans)

lemma same_host_choices_count [simp]: "same_host s (snd (choices_count s))"
  by (simp add: same_host_def choices_count_def selected_count_def Let_def split: option.splits)

lemma fst_choices_count:
  "cache_coherent s \<Longrightarrow> fst (choices_count s) = selected_count s"
  by (simp add: choices_count_def cache_coherent_def selected_count_def Let_def split: option.splits)

lemma same_host_show_default [simp]: "same_host s (show_search_field_default s)"
  by (simp add: same_host_def show_search_field_default_def choices_count_def selected_count_def
        Let_def split: option.splits)

lemma same_host_results_hide [simp]: "same_host s (results_hide s)"
  by (simp add: same_host_def results_hide_def)

lemma same_host_trigger [simp]: "same_host s (trigger ev s)"
  by (simp add: same_host_def)

lemma same_host_activate [simp]: "same_host s (activate_field s)"
  by (simp add: same_host_def)

lemma same_host_clear [simp]: "same_host s (result_clear_highlight s)"
  by (simp add: same_host_def)

lemma same_host_do_highlight [simp]: "same_host s (result_do_highlight a s)"
  by (simp add: same_host_def)

lemma same_host_upd [simp]:
  "same_host s (s\<lparr> results_showing := b \<rparr>)"
  "same_host s (s\<lparr> search_field := t \<rparr>)"
  "same_host s (s\<lparr> active_field := b \<rparr>)"
  "same_host s (s\<lparr> result_highlight := h \<rparr>)"
  by (simp_all add: same_host_def)

lemma same_host_results_show [simp]: "same_host s (after (results_show s))"
proof (cases "is_multiple s")
  case True
  let ?c = "snd (choices_count s)"
  have 1: "same_host s (after (winnow_results (?c\<lparr> results_showing := True \<rparr>)))"
    by (rule same_host_trans [OF same_host_choices_count])
       (rule same_host_trans [OF same_host_upd(1) same_host_winnow])
  have 2: "same_host s (trigger Maxselected ?c)"
    by (rule same_host_trans [OF same_host_choices_count same_host_trigger])
  show ?thesis
  proof (cases "at_most (max_selected_options s) (fst (choices_count s))")
    case full: True
    then show ?thesis using True 2 by (simp add: results_show_def)
  next
    case False
    then show ?thesis
      using True by (simp add: results_show_def same_host_after_bind [OF 1])
  qed
next
  case False
  have "same_host s (after (winnow_results (s\<lparr> results_showing := True \<rparr>)))"
    by (rule same_host_trans [OF same_host_upd(1) same_host_winnow])
  then show ?thesis
    using False by (simp add: results_show_def same_host_after_bind)
qed

lemma same_host_results_search [simp]: "same_host s (after (results_search s))"
  by (simp add: results_search_def)

lemma same_host_results_toggle [simp]: "same_host s (after (results_toggle s))"
  by (simp add: results_toggle_def)

lemma same_host_container_mousedown [simp]: "same_host s (after (container_mousedown b s))"
proof -
  have "same_host s (after (results_show (s\<lparr> search_field := [] \<rparr>)))"
    by (rule same_host_trans [OF same_host_upd(2) same_host_results_show])
  then show ?thesis
    unfolding container_mousedown_def
    by (simp add: same_host_after_bind)
qed

lemma same_host_keydown_arrow [simp]: "same_host s (after (keydown_arrow s))"
  by (simp add: keydown_arrow_def split: option.splits)

lemma same_host_keyup_arrow [simp]: "same_host s (after (keyup_arrow s))"
proof -
  have 1: "same_host s (result_clear_highlight (results_hide (snd (choices_count s))))"
    by (rule same_host_trans [OF same_host_choices_count])
       (rule same_host_trans [OF same_host_results_hide same_host_clear])
  have 2: "same_host s (result_clear_highlight (snd (choices_count s)))"
    by (rule same_host_trans [OF same_host_choices_count same_host_clear])
  show ?thesis
    unfolding keyup_arrow_def Let_def using 1 2
    by (simp split: option.splits)
qed

lemma same_host_mouse [simp]:
  "same_host s (search_results_mouseover k s)"
  "same_host s (search_results_mouseout k s)"
  by (simp_all add: search_results_mouseover_def search_results_mouseout_def)

lemma same_host_close_field [simp]: "same_host s (close_field s)"
  unfolding close_field_def
  by (rule same_host_trans [OF same_host_upd(3)])
     (rule same_host_trans [OF same_host_results_hide same_host_show_default])


lemma child_options_upd:
  "child_options (upd_children f n cs) = map (\<lambda>(i, el). f i el) (enumerate n (child_options cs))"
  by (induction f n cs rule: upd_children.induct) simp_all

lemma form_options_upd:
  "concat (map el_options (upd_nodes f n ns)) =
     map (\<lambda>(i, el). f i el) (enumerate n (concat (map el_options ns)))"
  by (induction f n ns rule: upd_nodes.induct)
     (simp_all add: child_options_upd enumerate_append_eq)

lemma upd_beyond:
  "k < n \<Longrightarrow> map (\<lambda>(i, el). if i = k then g el else el) (enumerate n os) = os"
  by (induction os arbitrary: n) auto

lemma count_sel_simps [simp]:
  "count_sel [] = 0"
  "count_sel (x # xs) = (if opt_selected x then Suc (count_sel xs) else count_sel xs)"
  by (simp_all add: count_sel_def)

lemma count_set_one:
  "count_sel (map (\<lambda>(i, el). if i = k then el\<lparr> opt_selected := v \<rparr> else el) (enumerate n os))
   \<le> Suc (count_sel os)"
proof (induction os arbitrary: n)
  case Nil
  show ?case by simp
next
  case (Cons x os)
  show ?case
  proof (cases "n = k")
    case True
    then show ?thesis by (simp add: upd_beyond)
  next
    case False
    then show ?thesis using Cons.IH [of "Suc n"] by simp
  qed
qed

lemma count_clear_one:
  "count_sel (map (\<lambda>(i, el). if i = k then el\<lparr> opt_selected := False \<rparr> else el) (enumerate n os))
   \<le> count_sel os"
proof (induction os arbitrary: n)
  case Nil
  show ?case by simp
next
  case (Cons x os)
  show ?case
  proof (cases "n = k")
    case True
    then show ?thesis by (simp add: upd_beyond)
  next
    case False
    then show ?thesis using Cons.IH [of "Suc n"] by simp
  qed
qed

lemma multiple_set_option_selected [simp]:
  "multiple (set_option_selected i v ff) = multiple ff"
  by (simp add: set_option_selected_def Let_def split: option.splits)

lemma count_set_option_selected:
  "multiple ff \<Longrightarrow>
   length (filter opt_selected (form_options (set_option_selected i True ff)))
     \<le> Suc (length (filter opt_selected (form_options ff)))"
  using count_set_one [of i True 0 "concat (map el_options (childNodes ff))"]
  by (simp add: set_option_selected_def form_options_def form_options_upd count_sel_def)

lemma count_clear_option_selected:
  "multiple ff \<Longrightarrow>
   length (filter opt_selected (form_options (set_option_selected i False ff)))
     \<le> length (filter opt_selected (form_options ff))"
  using count_clear_one [of i 0 "concat (map el_options (childNodes ff))"]
  by (simp add: set_option_selected_def form_options_def form_options_upd count_sel_def)

lemma finish_fields:
  "same_host s6 (result_select_finish ev oi s6)"
proof -
  have 1: "same_host s6 (show_search_field_default (results_hide s6))"
    by (rule same_host_trans [OF same_host_results_hide same_host_show_default])
  have 2: "same_host s6 (trigger_form_field_change a (show_search_field_default (results_hide s6)))" for a
    by (rule same_host_trans [OF 1]) (simp add: same_host_def)
  have 3: "same_host s6 (trigger_form_field_change a s6)" for a
    by (simp add: same_host_def)
  have 4: "same_host s6 s' \<Longrightarrow> same_host s6 (s'\<lparr> current_selectedIndex := i \<rparr>)" for s' i
    by (simp add: same_host_def)
  show ?thesis
    unfolding result_select_finish_def Let_def
    by (auto intro!: 4 1 2 3)
qed


lemma choices_count_fields [simp]:
  "form_field (snd (choices_count s)) = form_field s"
  "is_multiple (snd (choices_count s)) = is_multiple s"
  "max_selected_options (snd (choices_count s)) = max_selected_options s"
  "search_results (snd (choices_count s)) = search_results s"
  "results_data (snd (choices_count s)) = results_data s"
  by (simp_all add: choices_count_def Let_def split: option.splits)

lemma choices_count_clear [simp]:
  "fst (choices_count (result_clear_highlight s)) = fst (choices_count s)"
  by (simp add: choices_count_def Let_def result_clear_highlight_def split: option.splits)

lemma same_host_count_clear: "same_host s (snd (choices_count (result_clear_highlight s)))"
  by (rule same_host_trans [OF same_host_clear same_host_choices_count])

lemma mark_fields [simp]:
  "form_field (result_select_mark k s) = form_field s"
  "is_multiple (result_select_mark k s) = is_multiple s"
  "max_selected_options (result_select_mark k s) = max_selected_options s"
  "selected_option_count (result_select_mark k s) = selected_option_count s"
  by (simp_all add: result_select_mark_def Let_def)

lemma commit_outcome:
  "same_host s4 (after (result_select_commit ev k s4)) \<or>
   (\<exists>s6 oi. after (result_select_commit ev k s4) = result_select_finish ev oi s6 \<and>
      form_field s6 = set_option_selected oi True (form_field s4) \<and>
      selected_option_count s6 = None \<and>
      is_multiple s6 = is_multiple s4 \<and> max_selected_options s6 = max_selected_options s4)"
proof -
  define c where "c = (if k < length (search_results s4) then li_index (search_results s4 ! k) else None)"
  have h5: "same_host s4 (s4\<lparr> results_data := rd \<rparr>)" for rd
    by (simp add: same_host_def)
  show ?thesis
  proof (cases c)
    case None
    then show ?thesis by (simp add: result_select_commit_def c_def [symmetric])
  next
    case (Some ci)
    note ci = this
    show ?thesis
    proof (cases "ci < length (results_data s4)")
      case False
      then show ?thesis using ci by (simp add: result_select_commit_def c_def [symmetric])
    next
      case True
      let ?s5 = "s4\<lparr> results_data :=
                          (results_data s4)[ci := (results_data s4 ! ci)\<lparr> selected := True \<rparr>] \<rparr>"
      show ?thesis
      proof (cases "options_index (results_data ?s5 ! ci)")
        case None
        then show ?thesis using h5 ci True
          by (simp add: result_select_commit_def c_def [symmetric] Let_def)
      next
        case (Some oi)
        show ?thesis
        proof (cases "oi < length (form_options (form_field s4))")
          case False
          then show ?thesis using h5 ci True Some
            by (simp add: result_select_commit_def c_def [symmetric] Let_def)
        next
          case oi: True
          have "after (result_select_commit ev k s4) = result_select_finish ev oi
                  (?s5\<lparr> form_field := set_option_selected oi True (form_field ?s5),
                        selected_option_count := None \<rparr>)"
            using ci True Some oi by (simp add: result_select_commit_def c_def [symmetric] Let_def)
          then show ?thesis
            by (intro disjI2 exI conjI) (assumption | simp)+
        qed
      qed
    qed
  qed
qed

lemma result_select_outcome:
  "same_host s (after (result_select ev s)) \<or>
   (\<exists>s6 oi. after (result_select ev s) = result_select_finish ev oi s6 \<and>
      form_field s6 = set_option_selected oi True (form_field s) \<and>
      selected_option_count s6 = None \<and>
      is_multiple s6 = is_multiple s \<and> max_selected_options s6 = max_selected_options s \<and>
      \<not> (is_multiple s \<and> at_most (max_selected_options s) (fst (choices_count s))))"
proof (cases "result_highlight s")
  case None
  then show ?thesis by (simp add: result_select_def)
next
  case (Some k)
  let ?s1 = "result_clear_highlight s"
  show ?thesis
  proof (cases "is_multiple s \<and> at_most (max_selected_options s) (fst (choices_count s))")
    case True
    have "same_host s (trigger Maxselected (snd (choices_count ?s1)))"
      by (rule same_host_trans [OF same_host_count_clear same_host_trigger])
    then show ?thesis using True Some by (simp add: result_select_def Let_def)
  next
    case False
    define s2 where "s2 = (if is_multiple s then snd (choices_count ?s1) else ?s1)"
    define s4 where "s4 = result_select_mark k s2"
    have h2: "same_host s s2"
      unfolding s2_def by (simp add: same_host_count_clear)
    have h4: "same_host s s4"
      using h2 by (simp add: same_host_def s4_def)
    have unfold: "result_select ev s = result_select_commit ev k s4"
      using False Some by (auto simp: result_select_def Let_def s4_def s2_def)
    from commit_outcome [of s4 ev k] show ?thesis
    proof
      assume "same_host s4 (after (result_select_commit ev k s4))"
      then show ?thesis using h4 unfold by (auto intro: same_host_trans)
    next
      assume "\<exists>s6 oi. after (result_select_commit ev k s4) = result_select_finish ev oi s6 \<and>
        form_field s6 = set_option_selected oi True (form_field s4) \<and>
        selected_option_count s6 = None \<and>
        is_multiple s6 = is_multiple s4 \<and> max_selected_options s6 = max_selected_options s4"
      then obtain s6 oi where
        "after (result_select_commit ev k s4) = result_select_finish ev oi s6"
        "form_field s6 = set_option_selected oi True (form_field s4)"
        "selected_option_count s6 = None"
        "is_multiple s6 = is_multiple s4" "max_selected_options s6 = max_selected_options s4"
        by blast
      moreover have "form_field s4 = form_field s" "is_multiple s4 = is_multiple s"
        "max_selected_options s4 = max_selected_options s"
        using h4 by (simp_all add: same_host_def)
      ultimately show ?thesis
        using False unfold by (intro disjI2 exI [of _ s6] exI [of _ oi]) simp
    qed
  qed
qed


lemma same_host_sel_step: "same_host s s' \<Longrightarrow> sel_step s s'"
  using same_host_coherent [of s s']
  by (auto simp: sel_step_def same_host_def)

lemma set_selected_sel_step:
  assumes "same_host s6 s'"
    and "form_field s6 = set_option_selected oi True (form_field s)"
    and "selected_option_count s6 = None"
    and "is_multiple s6 = is_multiple s" "max_selected_options s6 = max_selected_options s"
    and "\<not> (is_multiple s \<and> at_most (max_selected_options s) (fst (choices_count s)))"
  shows "sel_step s s'"
proof -
  have c6: "cache_coherent s6"
    using assms(3) by (simp add: cache_coherent_def)
  from same_host_coherent [OF assms(1) c6]
  have c': "cache_coherent s'" and n': "selected_count s' = selected_count s6" by simp_all
  have cfg: "is_multiple s' = is_multiple s" "max_selected_options s' = max_selected_options s"
    "multiple (form_field s') = multiple (form_field s)"
    using assms(1,2,4,5) by (simp_all add: same_host_def)
  have "selected_count s6 \<le> Suc (selected_count s)" if "multiple (form_field s)"
    using count_set_option_selected [OF that, of oi] assms(2) by (simp add: selected_count_def)
  moreover have "\<not> at_most (max_selected_options s) (selected_count s)"
    if "cache_coherent s" "is_multiple s"
    using assms(6) that fst_choices_count [of s] by simp
  ultimately show ?thesis
    using c' n' cfg by (auto simp: sel_step_def)
qed

lemma result_select_sel_step: "sel_step s (after (result_select ev s))"
  using result_select_outcome [of s ev]
  by (auto intro: same_host_sel_step set_selected_sel_step [OF finish_fields])


lemma clear_selected_sel_step:
  assumes "same_host s1 s'"
    and "form_field s1 = set_option_selected oi False (form_field s)"
    and "selected_option_count s1 = None"
    and "is_multiple s1 = is_multiple s" "max_selected_options s1 = max_selected_options s"
  shows "sel_step s s'"
proof -
  have c1: "cache_coherent s1"
    using assms(3) by (simp add: cache_coherent_def)
  from same_host_coherent [OF assms(1) c1]
  have c': "cache_coherent s'" and n': "selected_count s' = selected_count s1" by simp_all
  have cfg: "is_multiple s' = is_multiple s" "max_selected_options s' = max_selected_options s"
    "multiple (form_field s') = multiple (form_field s)"
    using assms(1,2,4,5) by (simp_all add: same_host_def)
  have "selected_count s1 \<le> selected_count s" if "multiple (form_field s)"
    using count_clear_option_selected [OF that, of oi] assms(2) by (simp add: selected_count_def)
  then show ?thesis
    using c' n' cfg by (auto simp: sel_step_def)
qed

lemma result_deselect_outcome:
  "same_host s (deselect_state (result_deselect a s)) \<or>
   (\<exists>s1 oi. same_host s1 (deselect_state (result_deselect a s)) \<and>
      form_field s1 = set_option_selected oi False (form_field s) \<and>
      selected_option_count s1 = None \<and>
      is_multiple s1 = is_multiple s \<and> max_selected_options s1 = max_selected_options s)"
proof (cases "a < length (results_data s)")
  case False
  then show ?thesis by (simp add: result_deselect_def deselect_state_def)
next
  case a: True
  show ?thesis
  proof (cases "options_index (results_data s ! a)")
    case None
    then show ?thesis using a by (simp add: result_deselect_def deselect_state_def)
  next
    case (Some oi)
    show ?thesis
    proof (cases "oi < length (form_options (form_field s)) \<and> \<not> opt_disabled (form_options (form_field s) ! oi)")
      case False
      then show ?thesis using a Some by (auto simp: result_deselect_def deselect_state_def)
    next
      case True
      let ?s1 = "s\<lparr> results_data := (results_data s)[a := (results_data s ! a)\<lparr> selected := False \<rparr>],
                             form_field := set_option_selected oi False (form_field s),
                             selected_option_count := None \<rparr>"
      let ?s2 = "result_clear_highlight ?s1"
      let ?r = "if results_showing ?s2 then winnow_results ?s2 else Inr ?s2"
      have r: "same_host ?s2 (after ?r)"
        by simp
      have h2: "same_host ?s1 ?s2"
        by simp
      have fin: "deselect_state (result_deselect a s) =
          (case ?r of Inl x \<Rightarrow> snd x
           | Inr s3 \<Rightarrow> trigger_form_field_change
                (Deselected (opt_value (form_options (form_field s3) ! oi))) s3)"
        using a Some True
        by (simp add: result_deselect_def deselect_state_def Let_def split: sum.splits)
      have "same_host ?s2 (deselect_state (result_deselect a s))"
        unfolding fin by (rule same_host_after_bind [OF r]) (simp add: same_host_def)
      then have "same_host ?s1 (deselect_state (result_deselect a s))"
        by (rule same_host_trans [OF h2])
      moreover have "form_field ?s1 = set_option_selected oi False (form_field s)"
        "selected_option_count ?s1 = None" "is_multiple ?s1 = is_multiple s"
        "max_selected_options ?s1 = max_selected_options s"
        by simp_all
      ultimately show ?thesis by blast
    qed
  qed
qed

lemma result_deselect_sel_step: "sel_step s (deselect_state (result_deselect a s))"
  using result_deselect_outcome [of s a]
  by (auto intro: same_host_sel_step clear_selected_sel_step)

lemma sel_step_same_host: "sel_step s s1 \<Longrightarrow> same_host s1 s2 \<Longrightarrow> sel_step s s2"
  using same_host_coherent [of s1 s2]
  by (auto simp: sel_step_def same_host_def)

lemma choice_destroy_sel_step: "sel_step s (after (choice_destroy a s))"
proof (cases "result_deselect a s")
  case (Inl x)
  then show ?thesis
    using result_deselect_sel_step [of s a] by (simp add: choice_destroy_def deselect_state_def)
next
  case (Inr y)
  obtain ok s1 where y: "y = (ok, s1)" by (cases y)
  have 1: "sel_step s s1"
    using result_deselect_sel_step [of s a] Inr y by (simp add: deselect_state_def)
  show ?thesis
  proof (cases ok)
    case False
    then show ?thesis using 1 Inr y by (simp add: choice_destroy_def)
  next
    case True
    define s2 where "s2 = (if active_field s1 then s1 else show_search_field_default s1)"
    have h2: "same_host s1 s2" by (simp add: s2_def)
    have h3: "same_host s2 (snd (choices_count s2))" by simp
    have h4: "same_host s2 (results_hide (snd (choices_count s2)))"
      by (rule same_host_trans [OF h3 same_host_results_hide])
    have "same_host s2 (after (choice_destroy a s))"
      using Inr y True h3 h4
      by (simp add: choice_destroy_def Let_def s2_def [symmetric])
    then show ?thesis
      using 1 h2 by (blast intro: sel_step_same_host same_host_trans)
  qed
qed


lemma same_host_then_sel_step: "same_host s s0 \<Longrightarrow> sel_step s0 s' \<Longrightarrow> sel_step s s'"
  using same_host_coherent [of s s0]
  by (auto simp: sel_step_def same_host_def)

lemma mouseup_sel_step: "sel_step s (after (search_results_mouseup k ev s))"
proof (cases "k < length (search_results s) \<and> hasClass ''active-result'' (search_results s ! k)")
  case True
  have "sel_step s (after (result_select ev (s\<lparr> result_highlight := Some k \<rparr>)))"
    by (rule same_host_then_sel_step [OF same_host_upd(4) result_select_sel_step])
  then show ?thesis using True by (simp add: search_results_mouseup_def)
next
  case False
  then show ?thesis by (auto simp: search_results_mouseup_def intro: same_host_sel_step)
qed

lemma step_sel_step: "user_action a \<Longrightarrow> sel_step s (after (step a s))"
proof (cases a)
  case (Keyup_text t)
  have "same_host s (after (results_search (s\<lparr> search_field := t \<rparr>)))"
    by (rule same_host_trans [OF same_host_upd(2) same_host_results_search])
  then show ?thesis using Keyup_text by (simp add: same_host_sel_step)
next
  case (Keyup_enter ev)
  then show ?thesis by (simp add: result_select_sel_step same_host_sel_step)
next
  case (Updated ns)
  assume "user_action a"
  then show ?thesis using Updated by (simp add: user_action_def)
qed (simp_all add: same_host_sel_step mouseup_sel_step choice_destroy_sel_step)

lemma results_build_coherent:
  "\<exists>s'. results_build s = Inr s' \<and> cache_coherent s' \<and> form_field s' = form_field s \<and>
     is_multiple s' = is_multiple s \<and> max_selected_options s' = max_selected_options s \<and>
     results_showing s' = results_showing s"
proof -
  let ?s2 = "s\<lparr> selected_option_count := None, results_data := flatten 0 0 (childNodes (form_field s)) \<rparr>"
  let ?s3 = "update_results_content (results_option_build ?s2) ?s2"
  have "results_build s = Inr (show_search_field_default ?s3)"
    by (simp add: results_build_def select_to_array_flatten Let_def)
  moreover have "same_host ?s3 (show_search_field_default ?s3)" by simp
  moreover have "cache_coherent ?s3" by (simp add: cache_coherent_def)
  moreover have "results_showing (show_search_field_default ?s3) = results_showing s"
    by (simp add: show_search_field_default_def choices_count_def update_results_content_def Let_def
          split: option.splits)
  ultimately show ?thesis
    using same_host_coherent [of ?s3 "show_search_field_default ?s3"]
    by (simp add: same_host_def)
qed


lemma results_update_field_coherent: "cache_coherent (after (results_update_field s))"
proof -
  define s1 where "s1 = result_clear_highlight
     (let s0 = set_default_text s
      in if is_multiple s0 then s0
         else s0\<lparr> current_selectedIndex := selectedIndex (form_field s0) \<rparr>)"
  obtain s2 where b: "results_build s1 = Inr s2" and c: "cache_coherent s2"
    using results_build_coherent [of s1] by blast
  have "after (results_update_field s) = (if results_showing s2 then after (winnow_results s2) else s2)"
    by (simp add: results_update_field_def Let_def s1_def [symmetric] b [unfolded s1_def Let_def])
  then show ?thesis
    using c same_host_coherent [OF same_host_winnow, of s2] by simp
qed

lemma step_coherent: "cache_coherent s \<Longrightarrow> cache_coherent (after (step a s))"
proof (cases "user_action a")
  case True
  assume "cache_coherent s"
  then show ?thesis using step_sel_step [OF True, of s] by (simp add: sel_step_def)
next
  case False
  then obtain ns where "a = Updated ns" by (cases a) (simp_all add: user_action_def)
  then show ?thesis by (simp add: results_update_field_coherent)
qed

lemma run_coherent: "cache_coherent s \<Longrightarrow> cache_coherent (run acts s)"
  by (induction acts arbitrary: s) (simp_all add: step_coherent)

lemma Chosen_initial:
  "\<exists>s0. Chosen ff opts = Inr s0 \<and> cache_coherent s0 \<and> form_field s0 = ff \<and>
     is_multiple s0 = multiple ff \<and>
     max_selected_options s0 = or_infinity (options_max_selected_options opts)"
proof -
  define s1 where "s1 = set_default_values (set_default_text
     \<lparr> form_field = ff, widget_options = opts, is_multiple = multiple ff, default_text = [],
       results_none_found = [], active_field = False, results_showing = False,
       result_highlight = None, enable_split_word_search = True, group_search = True,
       search_contains = False, max_selected_options = Infinity,
       display_selected_options = True, display_disabled_options = True,
       max_shown_results = Infinity, case_sensitive_search = False,
       hide_results_on_select = True, current_selectedIndex = selectedIndex ff,
       results_data = [], selected_option_count = None, search_results = [],
       search_field = [], triggered = [] \<rparr>)"
  have f1: "form_field s1 = ff" "is_multiple s1 = multiple ff"
    "max_selected_options s1 = or_infinity (options_max_selected_options opts)"
    by (simp_all add: s1_def set_default_values_def set_default_text_def Let_def)
  obtain s2 where b: "results_build s1 = Inr s2" and c: "cache_coherent s2"
    "form_field s2 = form_field s1" "is_multiple s2 = is_multiple s1"
    "max_selected_options s2 = max_selected_options s1"
    using results_build_coherent [of s1] by blast
  have "Chosen ff opts = Inr (trigger Ready s2)"
    by (simp add: Chosen_def Let_def s1_def [symmetric] b)
  moreover have "cache_coherent (trigger Ready s2)"
    using same_host_coherent [OF same_host_trigger c(1)] by simp
  ultimately show ?thesis using c f1 by simp
qed

lemma results_update_field_config:
  "is_multiple (after (results_update_field s)) = is_multiple s \<and>
   max_selected_options (after (results_update_field s)) = max_selected_options s"
proof -
  define s1 where "s1 = result_clear_highlight
     (let s0 = set_default_text s
      in if is_multiple s0 then s0
         else s0\<lparr> current_selectedIndex := selectedIndex (form_field s0) \<rparr>)"
  have f1: "is_multiple s1 = is_multiple s" "max_selected_options s1 = max_selected_options s"
    by (simp_all add: s1_def set_default_text_def Let_def)
  obtain s2 where b: "results_build s1 = Inr s2" and c: "is_multiple s2 = is_multiple s1"
     "max_selected_options s2 = max_selected_options s1"
    using results_build_coherent [of s1] by blast
  have "after (results_update_field s) = (if results_showing s2 then after (winnow_results s2) else s2)"
    by (simp add: results_update_field_def Let_def s1_def [symmetric] b [unfolded s1_def Let_def])
  then show ?thesis
    using c f1 by simp
qed

lemma rejected_select:
  assumes "is_multiple s" and "cache_coherent s" and "result_highlight s \<noteq> None"
    and "at_most (max_selected_options s) (selected_count s)"
  shows "\<exists>s'. result_select ev s = Inr s' \<and> form_field s' = form_field s \<and>
           results_data s' = results_data s \<and> triggered s' = triggered s @ [Maxselected]"
proof -
  obtain k where k: "result_highlight s = Some k" using assms(3) by blast
  let ?s1 = "result_clear_highlight s"
  have n: "fst (choices_count ?s1) = selected_count s"
    using fst_choices_count [OF assms(2)] by simp
  have "result_select ev s = Inr (trigger Maxselected (snd (choices_count ?s1)))"
    using assms(1,4) k n by (simp add: result_select_def Let_def)
  moreover have "results_data (trigger Maxselected (snd (choices_count ?s1))) = results_data s"
    "triggered (trigger Maxselected (snd (choices_count ?s1))) = triggered s @ [Maxselected]"
    by (simp_all add: trigger_def choices_count_def result_clear_highlight_def Let_def
          split: option.splits)
  ultimately show ?thesis by simp
qed

lemma step_capacity_ok:
  assumes "capacity_ok s" and "user_action a"
  shows "capacity_ok (after (step a s))"
proof -
  have st: "sel_step s (after (step a s))" by (rule step_sel_step [OF assms(2)])
  have "within (selected_count (after (step a s))) (max_selected_options s)"
  proof (cases "max_selected_options s")
    case (Num m)
    then show ?thesis
      using st assms(1) by (auto simp: sel_step_def capacity_ok_def within_def)
  next
    case Infinity
    then show ?thesis by (simp add: within_def)
  qed
  then show ?thesis
    using st assms(1) by (simp add: sel_step_def capacity_ok_def)
qed

lemma run_capacity_ok:
  "capacity_ok s \<Longrightarrow> list_all user_action acts \<Longrightarrow> capacity_ok (run acts s)"
  by (induction acts arbitrary: s) (simp_all add: step_capacity_ok)

text \<open>
  Claim C1. Take a multi-select widget, built on a host control whose selected options are
  within \<open>max_selected_options\<close>, and any sequence of actions of the user (pointer and
  keys on the results, the search text, the close links of the choices). The number of
  selected host options, which is what the widget counts, stays within the limit. When an
  entry is highlighted and the count has reached the limit, \<open>result_select\<close> returns
  having triggered the max-selected notification, and the host control and the selected
  flags of the flat list are as before.
\<close>

theorem capacity_invariant:
  assumes "multiple ff"
    and "within (count_sel (form_options ff)) (or_infinity (options_max_selected_options opts))"
    and "list_all user_action acts"
  shows "within (selected_count (run acts (after (Chosen ff opts))))
           (max_selected_options (run acts (after (Chosen ff opts)))) \<and>
         (\<forall>ev. result_highlight (run acts (after (Chosen ff opts))) \<noteq> None \<and>
               at_most (max_selected_options (run acts (after (Chosen ff opts))))
                 (selected_count (run acts (after (Chosen ff opts)))) \<longrightarrow>
            (\<exists>s'. result_select ev (run acts (after (Chosen ff opts))) = Inr s' \<and>
                  form_field s' = form_field (run acts (after (Chosen ff opts))) \<and>
                  results_data s' = results_data (run acts (after (Chosen ff opts))) \<and>
                  triggered s' = triggered (run acts (after (Chosen ff opts))) @ [Maxselected]))"
proof -
  obtain s0 where s0: "Chosen ff opts = Inr s0" "cache_coherent s0" "form_field s0 = ff"
    "is_multiple s0 = multiple ff"
    "max_selected_options s0 = or_infinity (options_max_selected_options opts)"
    using Chosen_initial [of ff opts] by blast
  have "capacity_ok s0"
    using s0 assms(1,2) by (simp add: capacity_ok_def selected_count_def count_sel_def)
  then have ok: "capacity_ok (run acts s0)"
    using assms(3) by (rule run_capacity_ok)
  then show ?thesis
    using s0(1) rejected_select [of "run acts s0"]
    by (auto simp: capacity_ok_def)
qed


theorem capacity_invariant_witness:
  "multiple fruit_select \<and>
   within (count_sel (form_options fruit_select))
     (or_infinity (options_max_selected_options (max_options 2))) \<and>
   list_all user_action select_two \<and>
   selected_count (run select_two (after (Chosen fruit_select (max_options 2)))) = 2 \<and>
   within (selected_count (run select_two (after (Chosen fruit_select (max_options 2)))))
     (max_selected_options (run select_two (after (Chosen fruit_select (max_options 2))))) \<and>
   result_highlight (run select_two (after (Chosen fruit_select (max_options 2)))) \<noteq> None \<and>
   at_most (max_selected_options (run select_two (after (Chosen fruit_select (max_options 2)))))
     (selected_count (run select_two (after (Chosen fruit_select (max_options 2))))) \<and>
   (\<exists>s'. result_select no_modifier (run select_two (after (Chosen fruit_select (max_options 2)))) = Inr s' \<and>
      form_field s' = form_field (run select_two (after (Chosen fruit_select (max_options 2)))) \<and>
      results_data s' = results_data (run select_two (after (Chosen fruit_select (max_options 2)))) \<and>
      triggered s' = triggered (run select_two (after (Chosen fruit_select (max_options 2)))) @ [Maxselected])"
proof -
  have h1: "multiple fruit_select" by code_simp
  have h2: "within (count_sel (form_options fruit_select))
     (or_infinity (options_max_selected_options (max_options 2)))" by code_simp
  have h3: "list_all user_action select_two" by code_simp
  have h4: "selected_count (run select_two (after (Chosen fruit_select (max_options 2)))) = 2"
    by code_simp
  have h5: "result_highlight (run select_two (after (Chosen fruit_select (max_options 2)))) \<noteq> None"
    by code_simp
  have h6: "at_most (max_selected_options (run select_two (after (Chosen fruit_select (max_options 2)))))
     (selected_count (run select_two (after (Chosen fruit_select (max_options 2)))))"
    by code_simp
  from capacity_invariant [OF h1 h2 h3] h1 h2 h3 h4 h5 h6 show ?thesis by blast
qed

lemma selected_option_count_choices_count:
  "selected_option_count (snd (choices_count s)) = Some (fst (choices_count s))"
  by (simp add: choices_count_def Let_def split: option.splits)

lemma result_select_rejected:
  assumes "result_highlight s = Some k" and "is_multiple s"
    and "at_most (max_selected_options s) (fst (choices_count s))"
  shows "\<exists>s'. result_select ev s = Inr s' \<and> form_field s' = form_field s \<and>
           results_data s' = results_data s \<and>
           selected_option_count s' = Some (fst (choices_count s)) \<and>
           triggered s' = triggered s @ [Maxselected]"
proof -
  let ?s1 = "result_clear_highlight s"
  let ?s' = "trigger Maxselected (snd (choices_count ?s1))"
  have r: "result_select ev s = Inr ?s'"
    using assms by (simp add: result_select_def Let_def)
  have "results_data ?s' = results_data s" "triggered ?s' = triggered s @ [Maxselected]"
    by (simp_all add: trigger_def choices_count_def result_clear_highlight_def Let_def
          split: option.splits)
  moreover have "selected_option_count ?s' = Some (fst (choices_count s))"
    using selected_option_count_choices_count [of ?s1] by simp
  moreover have "form_field ?s' = form_field s" by simp
  ultimately show ?thesis using r by simp
qed

lemma result_select_commit_through:
  assumes "result_select_commit ev k sc = Inr sc'"
  shows "\<exists>oi s6. sc' = result_select_finish ev oi s6 \<and> selected_option_count s6 = None \<and>
         form_field s6 = set_option_selected oi True (form_field sc)"
  using assms
  apply (auto simp: result_select_commit_def Let_def split: option.splits if_splits)
  subgoal for ci oi
    by (rule exI [of _ oi], rule exI, rule conjI, rule refl) simp
  done

lemma result_select_through:
  assumes "result_highlight s = Some k"
    and "\<not> (is_multiple s \<and> at_most (max_selected_options s) (fst (choices_count s)))"
    and "result_select ev s = Inr s'"
  shows "\<exists>oi s6. s' = result_select_finish ev oi s6 \<and> selected_option_count s6 = None \<and>
         form_field s6 = set_option_selected oi True (form_field s)"
proof -
  let ?s1 = "result_clear_highlight s"
  define s2 where "s2 = (if is_multiple s then snd (choices_count ?s1) else ?s1)"
  define s4 where "s4 = result_select_mark k s2"
  have f: "form_field s4 = form_field s"
    by (simp add: s4_def s2_def)
  have "result_select ev s = result_select_commit ev k s4"
    using assms(1,2) by (auto simp: result_select_def Let_def s4_def s2_def)
  with assms(3) have "result_select_commit ev k s4 = Inr s'" by simp
  from result_select_commit_through [OF this] f show ?thesis by simp
qed

lemma result_deselect_through:
  assumes "result_deselect a sd = Inr (True, sd')"
  shows "selected_option_count sd' = None \<and>
     (\<exists>oi. options_index (results_data sd ! a) = Some oi \<and>
        form_field sd' = set_option_selected oi False (form_field sd))"
proof -
  from assms have a: "a < length (results_data sd)"
    by (auto simp: result_deselect_def split: if_splits)
  from assms a obtain oi where oi: "options_index (results_data sd ! a) = Some oi"
    by (cases "options_index (results_data sd ! a)") (auto simp: result_deselect_def)
  from assms a oi have ok: "oi < length (form_options (form_field sd))"
    "\<not> opt_disabled (form_options (form_field sd) ! oi)"
    by (auto simp: result_deselect_def split: if_splits)
  let ?s1 = "sd\<lparr> results_data := (results_data sd)[a := (results_data sd ! a)\<lparr> selected := False \<rparr>],
                form_field := set_option_selected oi False (form_field sd),
                selected_option_count := None \<rparr>"
  let ?s2 = "result_clear_highlight ?s1"
  let ?r = "if results_showing ?s2 then winnow_results ?s2 else Inr ?s2"
  have fin: "result_deselect a sd =
      (case ?r of Inl x \<Rightarrow> Inl x
       | Inr s3 \<Rightarrow> Inr (True, trigger_form_field_change
            (Deselected (opt_value (form_options (form_field s3) ! oi))) s3))"
    using a oi ok by (simp add: result_deselect_def Let_def)
  from assms fin obtain s3 where s3: "?r = Inr s3"
    and sd': "sd' = trigger_form_field_change
            (Deselected (opt_value (form_options (form_field s3) ! oi))) s3"
    by (cases ?r) simp_all
  have "s3 = after ?r" using s3 by simp
  then have "selected_option_count s3 = None" "form_field s3 = set_option_selected oi False (form_field sd)"
    by (simp_all split: if_splits)
  then show ?thesis using oi sd' by simp
qed

lemma result_deselect_rejected:
  "result_deselect a sd = Inr (False, sd') \<longleftrightarrow>
     (sd' = sd \<and> a < length (results_data sd) \<and>
      (\<exists>oi. options_index (results_data sd ! a) = Some oi \<and>
         oi < length (form_options (form_field sd)) \<and>
         opt_disabled (form_options (form_field sd) ! oi)))"
proof (cases "a < length (results_data sd)")
  case False
  then show ?thesis by (simp add: result_deselect_def)
next
  case a: True
  show ?thesis
  proof (cases "options_index (results_data sd ! a)")
    case None
    then show ?thesis using a by (simp add: result_deselect_def)
  next
    case (Some oi)
    show ?thesis
    proof (cases "oi < length (form_options (form_field sd))")
      case False
      then show ?thesis using a Some by (simp add: result_deselect_def)
    next
      case oi: True
      show ?thesis
      proof (cases "opt_disabled (form_options (form_field sd) ! oi)")
        case True
        then show ?thesis using a Some oi by (auto simp: result_deselect_def)
      next
        case False
        then have "result_deselect a sd \<noteq> Inr (False, sd')"
          using a Some oi by (simp add: result_deselect_def Let_def split: sum.splits)
        then show ?thesis using a Some oi False by simp
      qed
    qed
  qed
qed

text \<open>
  Claim C9, as the code has it. After any sequence of actions on a widget, the count that
  \<open>choices_count\<close> reports is the number of selected host options. With an empty
  cache the count is taken from the host control and cached. The cache is emptied where
  the selection changes. A deselect that goes through has cleared the host option and
  leaves the cache empty. A deselect is rejected exactly when the host option is disabled,
  and then the widget is left as it was, selection and cache included. A select on a
  highlighted entry of a multi-select widget whose count has reached the limit is rejected:
  it returns with the host control and the flat list unchanged, the cache holding the count
  it has just compared, and the max-selected notification triggered. Any other select on a
  highlighted entry that returns has set the host option and emptied the cache at that
  point, before the results are hidden.
\<close>

theorem count_is_exact:
  "fst (choices_count (run acts (after (Chosen ff opts)))) =
     selected_count (run acts (after (Chosen ff opts))) \<and>
   fst (choices_count (s\<lparr> selected_option_count := None \<rparr>)) = selected_count s \<and>
   selected_option_count (snd (choices_count (s\<lparr> selected_option_count := None \<rparr>))) =
     Some (selected_count s) \<and>
   (result_deselect a sd = Inr (True, sd') \<longrightarrow>
      selected_option_count sd' = None \<and>
      (\<exists>oi. options_index (results_data sd ! a) = Some oi \<and>
         form_field sd' = set_option_selected oi False (form_field sd))) \<and>
   (result_deselect a sd = Inr (False, sd') \<longleftrightarrow>
      (sd' = sd \<and> a < length (results_data sd) \<and>
       (\<exists>oi. options_index (results_data sd ! a) = Some oi \<and>
          oi < length (form_options (form_field sd)) \<and>
          opt_disabled (form_options (form_field sd) ! oi)))) \<and>
   (result_highlight sc = Some k \<and> is_multiple sc \<and>
    at_most (max_selected_options sc) (fst (choices_count sc)) \<longrightarrow>
      (\<exists>sr. result_select ev sc = Inr sr \<and> form_field sr = form_field sc \<and>
         results_data sr = results_data sc \<and>
         selected_option_count sr = Some (fst (choices_count sc)) \<and>
         triggered sr = triggered sc @ [Maxselected])) \<and>
   (result_highlight sc = Some k \<and>
    \<not> (is_multiple sc \<and> at_most (max_selected_options sc) (fst (choices_count sc))) \<and>
    result_select ev sc = Inr sc' \<longrightarrow>
      (\<exists>oi s6. sc' = result_select_finish ev oi s6 \<and> selected_option_count s6 = None \<and>
         form_field s6 = set_option_selected oi True (form_field sc)))"
proof -
  obtain s0 where s0: "Chosen ff opts = Inr s0" "cache_coherent s0"
    using Chosen_initial [of ff opts] by blast
  have 1: "fst (choices_count (run acts (after (Chosen ff opts)))) =
     selected_count (run acts (after (Chosen ff opts)))"
    using run_coherent [OF s0(2), of acts] s0(1) by (simp add: fst_choices_count)
  have 2: "fst (choices_count (s\<lparr> selected_option_count := None \<rparr>)) = selected_count s"
    "selected_option_count (snd (choices_count (s\<lparr> selected_option_count := None \<rparr>))) =
     Some (selected_count s)"
    by (simp_all add: choices_count_def selected_count_def Let_def)
  note 3 = result_deselect_through [of a sd sd']
  note 4 = result_deselect_rejected [of a sd sd']
  note 5 = result_select_rejected [of sc k ev]
  note 6 = result_select_through [of sc k ev sc']
  show ?thesis
    apply (intro conjI impI)
          apply (rule 1)
         apply (rule 2(1))
        apply (rule 2(2))
       apply (erule 3 [THEN conjunct1])
      apply (erule 3 [THEN conjunct2])
     apply (rule 4)
    apply (elim conjE, erule (2) 5)
    apply (elim conjE, erule (2) 6)
    done
qed


theorem count_is_exact_witness:
  "fst (choices_count (run select_two (after (Chosen fruit_select (max_options 2))))) =
     selected_count (run select_two (after (Chosen fruit_select (max_options 2)))) \<and>
   selected_count (run select_two (after (Chosen fruit_select (max_options 2)))) = 2 \<and>
   result_deselect 1 apple_selected = Inr (True, deselect_state (result_deselect 1 apple_selected)) \<and>
   selected_option_count (deselect_state (result_deselect 1 apple_selected)) = None \<and>
   form_field (deselect_state (result_deselect 1 apple_selected)) =
     set_option_selected 1 False (form_field apple_selected) \<and>
   selected_count locked = 1 \<and>
   result_deselect 0 locked = Inr (False, locked) \<and>
   result_highlight apple_selected = Some 2 \<and> is_multiple apple_selected \<and>
   at_most (max_selected_options apple_selected) (fst (choices_count apple_selected)) \<and>
   (\<exists>sr. result_select no_modifier apple_selected = Inr sr \<and>
      form_field sr = form_field apple_selected \<and>
      results_data sr = results_data apple_selected \<and>
      selected_option_count sr = Some 1 \<and>
      triggered sr = triggered apple_selected @ [Maxselected]) \<and>
   result_highlight opened = Some 0 \<and>
   \<not> (is_multiple opened \<and> at_most (max_selected_options opened) (fst (choices_count opened))) \<and>
   result_select with_ctrl opened = Inr (after (result_select with_ctrl opened)) \<and>
   (\<exists>oi s6. after (result_select with_ctrl opened) = result_select_finish with_ctrl oi s6 \<and>
      selected_option_count s6 = None \<and>
      form_field s6 = set_option_selected oi True (form_field opened))"
proof -
  have h1: "result_deselect 1 apple_selected = Inr (True, deselect_state (result_deselect 1 apple_selected))"
    by code_simp
  have h2: "selected_count (run select_two (after (Chosen fruit_select (max_options 2)))) = 2"
    by code_simp
  have h3: "options_index (results_data apple_selected ! 1) = Some 1" by code_simp
  have h4: "selected_count locked = 1" by code_simp
  have h5: "0 < length (results_data locked) \<and>
      options_index (results_data locked ! 0) = Some 0 \<and>
      0 < length (form_options (form_field locked)) \<and>
      opt_disabled (form_options (form_field locked) ! 0)" by code_simp
  have h6: "result_highlight apple_selected = Some 2" "is_multiple apple_selected"
    "at_most (max_selected_options apple_selected) (fst (choices_count apple_selected))"
    "fst (choices_count apple_selected) = 1"
    by code_simp+
  have h7: "result_highlight opened = Some 0"
    "\<not> (is_multiple opened \<and> at_most (max_selected_options opened) (fst (choices_count opened)))"
    "result_select with_ctrl opened = Inr (after (result_select with_ctrl opened))"
    by code_simp+
  note t = count_is_exact [of select_two fruit_select "max_options 2" _ 1 apple_selected
      "deselect_state (result_deselect 1 apple_selected)"]
  have a: "fst (choices_count (run select_two (after (Chosen fruit_select (max_options 2))))) =
     selected_count (run select_two (after (Chosen fruit_select (max_options 2))))"
    using t by blast
  have b: "selected_option_count (deselect_state (result_deselect 1 apple_selected)) = None \<and>
     form_field (deselect_state (result_deselect 1 apple_selected)) =
       set_option_selected 1 False (form_field apple_selected)"
    using t h1 h3 by auto
  have c: "result_deselect 0 locked = Inr (False, locked)"
    using count_is_exact [of _ _ _ _ 0 locked locked] h5 by blast
  have d: "\<exists>sr. result_select no_modifier apple_selected = Inr sr \<and>
      form_field sr = form_field apple_selected \<and>
      results_data sr = results_data apple_selected \<and>
      selected_option_count sr = Some 1 \<and>
      triggered sr = triggered apple_selected @ [Maxselected]"
    using count_is_exact [of _ _ _ _ _ _ _ apple_selected 2 no_modifier] h6 by auto
  have e: "\<exists>oi s6. after (result_select with_ctrl opened) = result_select_finish with_ctrl oi s6 \<and>
      selected_option_count s6 = None \<and>
      form_field s6 = set_option_selected oi True (form_field opened)"
    using count_is_exact [of _ _ _ _ _ _ _ opened 0 with_ctrl "after (result_select with_ctrl opened)"] h7
    by blast
  show ?thesis using a b c d e h1 h2 h4 h6(1,2,3) h7 by blast
qed

text \<open>
  The claim as written says every select empties the cache. With limit 1 and Apple
  selected, a select of the highlighted Lemon is rejected: it fills the cache with the
  count 1 for its check and returns, and the cache is not empty afterwards.
\<close>

theorem rejected_select_keeps_cache:
  "result_highlight apple_selected = Some 2 \<and>
   selected_option_count (after (result_select no_modifier apple_selected)) = Some 1 \<and>
   selected_option_count (after (result_select no_modifier apple_selected)) \<noteq> None \<and>
   triggered (after (result_select no_modifier apple_selected)) =
     [Ready, Showing_dropdown, Input (Selected ''Apple''), Change (Selected ''Apple''), Maxselected]"
  by code_simp


lemma step_config:
  "is_multiple (after (step a s)) = is_multiple s \<and>
   max_selected_options (after (step a s)) = max_selected_options s"
proof (cases "user_action a")
  case True
  then show ?thesis using step_sel_step [of a s] by (simp add: sel_step_def)
next
  case False
  then obtain ns where "a = Updated ns" by (cases a) (simp_all add: user_action_def)
  then show ?thesis using results_update_field_config by simp
qed

lemma run_config:
  "is_multiple (run acts s) = is_multiple s \<and>
   max_selected_options (run acts s) = max_selected_options s"
  by (induction acts arbitrary: s) (simp_all add: step_config)

text \<open>
  Claim C2, as the code has it. \<open>max_selected_options\<close> is defaulted to unbounded when
  it is missing or zero. A negative value is kept as given. In a multi-select widget every
  \<open>results_show\<close> then returns having triggered the max-selected notification, whatever
  was done before, and so does every \<open>result_select\<close> on a highlighted entry; neither
  throws.
\<close>

theorem negative_max_rejects:
  assumes "multiple ff" and "options_max_selected_options opts = Some (Num n)" and "n < 0"
  shows "max_selected_options (run acts (after (Chosen ff opts))) = Num n \<and>
         results_show (run acts (after (Chosen ff opts))) =
           Inr (trigger Maxselected (snd (choices_count (run acts (after (Chosen ff opts)))))) \<and>
         (is_multiple s \<and> max_selected_options s = Num n \<and> result_highlight s \<noteq> None \<longrightarrow>
            result_select ev s =
              Inr (trigger Maxselected (snd (choices_count (result_clear_highlight s))))) \<and>
         max_selected_options (after (Chosen ff (opts\<lparr> options_max_selected_options := None \<rparr>))) = Infinity \<and>
         max_selected_options (after (Chosen ff (opts\<lparr> options_max_selected_options := Some (Num 0) \<rparr>))) = Infinity"
proof -
  obtain s0 where s0: "Chosen ff opts = Inr s0" "is_multiple s0 = multiple ff"
    "max_selected_options s0 = or_infinity (options_max_selected_options opts)"
    using Chosen_initial [of ff opts] by blast
  let ?s = "run acts s0"
  have cfg: "is_multiple ?s" "max_selected_options ?s = Num n"
    using run_config [of acts s0] s0 assms by (simp_all add: or_infinity_def)
  have 1: "results_show ?s = Inr (trigger Maxselected (snd (choices_count ?s)))"
    using cfg assms(3) by (simp add: results_show_def Let_def)
  have 2: "result_select ev s =
      Inr (trigger Maxselected (snd (choices_count (result_clear_highlight s))))"
    if hl: "is_multiple s \<and> max_selected_options s = Num n \<and> result_highlight s \<noteq> None"
  proof (cases "result_highlight s")
    case None
    then show ?thesis using hl by simp
  next
    case (Some k)
    then show ?thesis
      using hl assms(3) by (simp add: result_select_def Let_def)
  qed
  have 3: "max_selected_options (after (Chosen ff (opts\<lparr> options_max_selected_options := x \<rparr>))) =
      or_infinity x" for x
    using Chosen_initial [of ff "opts\<lparr> options_max_selected_options := x \<rparr>"] by auto
  show ?thesis
    using cfg(2) 1 2 s0(1) by (simp add: 3 or_infinity_def)
qed

theorem negative_max_rejects_witness:
  "multiple fruit_select \<and> options_max_selected_options (max_options (- 1)) = Some (Num (- 1)) \<and>
   (- 1 :: int) < 0 \<and>
   max_selected_options (run [Mouseover 0] (after (Chosen fruit_select (max_options (- 1))))) = Num (- 1) \<and>
   results_show (run [Mouseover 0] (after (Chosen fruit_select (max_options (- 1))))) =
     Inr (trigger Maxselected
       (snd (choices_count (run [Mouseover 0] (after (Chosen fruit_select (max_options (- 1)))))))) \<and>
   triggered (after (results_show (run [Mouseover 0] (after (Chosen fruit_select (max_options (- 1))))))) =
     [Ready, Maxselected] \<and>
   is_multiple stuck_widget \<and> max_selected_options stuck_widget = Num (- 1) \<and>
   result_highlight stuck_widget \<noteq> None \<and>
   result_select no_modifier stuck_widget =
     Inr (trigger Maxselected (snd (choices_count (result_clear_highlight stuck_widget))))"
proof -
  have h1: "multiple fruit_select" by code_simp
  have h2: "options_max_selected_options (max_options (- 1)) = Some (Num (- 1))" by code_simp
  have h3: "(- 1 :: int) < 0" by simp
  have h4: "triggered (after (results_show (run [Mouseover 0] (after (Chosen fruit_select (max_options (- 1))))))) =
     [Ready, Maxselected]"
    by code_simp
  have h5: "is_multiple stuck_widget" "max_selected_options stuck_widget = Num (- 1)"
    "result_highlight stuck_widget \<noteq> None"
    by code_simp+
  from negative_max_rejects [OF h1 h2 h3, of "[Mouseover 0]" stuck_widget no_modifier]
    h1 h2 h3 h4 h5 show ?thesis by blast
qed

text \<open>
  The claim as written says a negative limit behaves like an unbounded one. With the limit
  -1 the widget does not open and notifies max-selected; without a limit it opens.
\<close>

theorem negative_max_is_not_unbounded:
  "max_selected_options (after (Chosen fruit_select (max_options (- 1)))) = Num (- 1) \<and>
   \<not> results_showing (run [Container_mousedown False] (after (Chosen fruit_select (max_options (- 1))))) \<and>
   triggered (run [Container_mousedown False] (after (Chosen fruit_select (max_options (- 1))))) =
     [Ready, Maxselected] \<and>
   max_selected_options (after (Chosen fruit_select no_options)) = Infinity \<and>
   results_showing (run [Container_mousedown False] (after (Chosen fruit_select no_options))) \<and>
   triggered (run [Container_mousedown False] (after (Chosen fruit_select no_options))) =
     [Ready, Showing_dropdown]"
  by code_simp

section \<open>The filter pass\<close>

lemma out_simps [simp]: "out (Inr y) = y" "out (Inl x) = snd x"
  by (simp_all add: out_def)

lemma stat_upd [simp]:
  "stat (it\<lparr> search_match := m \<rparr>) = stat it"
  "stat (it\<lparr> group_match := gm \<rparr>) = stat it"
  "stat (it\<lparr> active_options := ao \<rparr>) = stat it"
  "stat (it\<lparr> search_text := t \<rparr>) = stat it"
  by (simp_all add: stat_def)

lemma nth_upd: "xs[k := v] ! i = (if i = k \<and> k < length xs then v else xs ! i)"
  by (cases "k < length xs") (simp_all add: nth_list_update list_update_beyond)

lemma stat_nth_upd [simp]: "stat v = stat (xs ! k) \<Longrightarrow> stat (xs[k := v] ! i) = stat (xs ! i)"
  by (simp add: nth_upd)

lemma winnow_count_length [simp]: "length (fst (winnow_count f acc)) = length (fst acc)"
  by (simp add: winnow_count_def Let_def split: option.splits)

lemma winnow_count_stat [simp]:
  "stat (fst (winnow_count f acc) ! i) = stat (fst acc ! i)"
  by (simp add: winnow_count_def Let_def split: option.splits)

lemma winnow_match_length [simp]:
  "length (fst (out (winnow_match s d b g j f acc))) = length (fst acc)"
  by (simp add: winnow_match_def Let_def split: option.splits)

lemma winnow_match_stat [simp]:
  "stat (fst (out (winnow_match s d b g j f acc)) ! i) = stat (fst acc ! i)"
  by (simp add: winnow_match_def Let_def split: option.splits)

lemma winnow_item_length [simp]:
  "length (fst (out (winnow_item s d b g j acc))) = length (fst acc)"
  by (simp add: winnow_item_def Let_def)

lemma winnow_item_stat [simp]:
  "stat (fst (out (winnow_item s d b g j acc)) ! i) = stat (fst acc ! i)"
  by (simp add: winnow_item_def Let_def)


lemma sm_upd [simp]:
  "sm (it\<lparr> group_match := gm \<rparr>) = sm it"
  "sm (it\<lparr> active_options := ao \<rparr>) = sm it"
  by (simp_all add: sm_def)

lemma sm_nth_upd [simp]:
  "i \<noteq> k \<or> sm v = sm (xs ! k) \<Longrightarrow> sm (xs[k := v] ! i) = sm (xs ! i)"
  by (auto simp: nth_upd)

lemma winnow_count_sm [simp]: "sm (fst (winnow_count f acc) ! i) = sm (fst acc ! i)"
  by (simp add: winnow_count_def Let_def split: option.splits)

lemma winnow_match_sm: "i \<noteq> j \<Longrightarrow> sm (fst (out (winnow_match s d b g j f acc)) ! i) = sm (fst acc ! i)"
  by (simp add: winnow_match_def Let_def split: option.splits)

lemma winnow_item_sm: "i \<noteq> j \<Longrightarrow> sm (fst (out (winnow_item s d b g j acc)) ! i) = sm (fst acc ! i)"
  by (simp add: winnow_item_def Let_def winnow_match_sm)

lemma stat_fields:
  assumes "stat a = stat b"
  shows "group a = group b" "empty a = empty b" "selected a = selected b" "disabled a = disabled b"
    "group_array_index a = group_array_index b" "array_index a = array_index b"
    "label a = label b" "html a = html b" "classes a = classes b" "title a = title b"
    "style a = style b" "options_index a = options_index b"
    "include_option_in_results s a = include_option_in_results s b"
proof -
  have f: "h (stat a) = h (stat b)" for h :: "item \<Rightarrow> 'x" using assms by simp
  show "group a = group b" using f [of group] by (simp add: stat_def)
  show "empty a = empty b" using f [of empty] by (simp add: stat_def)
  show "selected a = selected b" using f [of selected] by (simp add: stat_def)
  show "disabled a = disabled b" using f [of disabled] by (simp add: stat_def)
  show "group_array_index a = group_array_index b" using f [of group_array_index] by (simp add: stat_def)
  show "array_index a = array_index b" using f [of array_index] by (simp add: stat_def)
  show "label a = label b" using f [of label] by (simp add: stat_def)
  show "html a = html b" using f [of html] by (simp add: stat_def)
  show "classes a = classes b" using f [of classes] by (simp add: stat_def)
  show "title a = title b" using f [of title] by (simp add: stat_def)
  show "style a = style b" using f [of style] by (simp add: stat_def)
  show "options_index a = options_index b" using f [of options_index] by (simp add: stat_def)
  show "include_option_in_results s a = include_option_in_results s b"
    using \<open>selected a = selected b\<close> \<open>disabled a = disabled b\<close> \<open>empty a = empty b\<close>
    by (simp add: include_option_in_results_def)
qed

lemma regex_test_empty_query [simp]: "regex_test (get_search_regex s []) t"
proof -
  have "[0 ..< Suc (length t)] = 0 # [Suc 0 ..< Suc (length t)]"
    by (rule upt_conv_Cons) simp
  then show ?thesis
    by (simp add: regex_test_def regex_search_def get_search_regex_def del: upt_Suc)
qed

lemma search_string_match_empty_query [simp]: "search_string_match s t (get_search_regex s [])"
  by (simp add: search_string_match_def)

lemma winnow_item_empty_query:
  assumes "j < length (fst acc)"
  shows "\<exists>acc'. winnow_item s (get_search_regex s []) b [] j acc = Inr acc' \<and>
           (\<not> group (fst acc ! j) \<and> include_option_in_results s (fst acc ! j) \<longrightarrow>
              search_match (fst acc' ! j))"
  using assms
  by (simp add: winnow_item_def winnow_match_def Let_def include_option_in_results_def
        nth_upd winnow_count_def group_of_def split: option.splits)


lemma winnow_loop_frame:
  "length (fst (out (winnow_loop s d b g js acc))) = length (fst acc) \<and>
   stat (fst (out (winnow_loop s d b g js acc)) ! i) = stat (fst acc ! i) \<and>
   (i \<notin> set js \<longrightarrow> sm (fst (out (winnow_loop s d b g js acc)) ! i) = sm (fst acc ! i))"
proof (induction js arbitrary: acc)
  case Nil
  show ?case by simp
next
  case (Cons j js)
  show ?case
  proof (cases "winnow_item s d b g j acc")
    case (Inl x)
    then show ?thesis
      using winnow_item_length [of s d b g j acc] winnow_item_stat [of s d b g j acc i]
        winnow_item_sm [of i j s d b g acc]
      by auto
  next
    case (Inr acc')
    then show ?thesis
      using winnow_item_length [of s d b g j acc] winnow_item_stat [of s d b g j acc i]
        winnow_item_sm [of i j s d b g acc] Cons.IH [of acc']
      by auto
  qed
qed

lemma winnow_loop_empty_query:
  assumes "distinct js" and "\<forall>j \<in> set js. j < length (fst acc)"
  shows "\<exists>acc'. winnow_loop s (get_search_regex s []) b [] js acc = Inr acc' \<and>
           (\<forall>j \<in> set js. \<not> group (fst acc ! j) \<and> include_option_in_results s (fst acc ! j) \<longrightarrow>
              search_match (fst acc' ! j))"
  using assms
proof (induction js arbitrary: acc)
  case Nil
  show ?case by simp
next
  case (Cons j js)
  let ?d = "get_search_regex s []"
  obtain acc1 where 1: "winnow_item s ?d b [] j acc = Inr acc1"
    and m: "\<not> group (fst acc ! j) \<and> include_option_in_results s (fst acc ! j) \<longrightarrow>
              search_match (fst acc1 ! j)"
    using winnow_item_empty_query [of j acc s b] Cons.prems by auto
  have len: "length (fst acc1) = length (fst acc)"
    using winnow_item_length [of s ?d b "[]" j acc] 1 by simp
  have st: "stat (fst acc1 ! i) = stat (fst acc ! i)" for i
    using winnow_item_stat [of s ?d b "[]" j acc i] 1 by simp
  obtain acc' where 2: "winnow_loop s ?d b [] js acc1 = Inr acc'"
    and ms: "\<forall>i \<in> set js. \<not> group (fst acc1 ! i) \<and> include_option_in_results s (fst acc1 ! i) \<longrightarrow>
              search_match (fst acc' ! i)"
    using Cons.IH [of acc1] Cons.prems len by auto
  have keep: "sm (fst acc' ! j) = sm (fst acc1 ! j)"
    using winnow_loop_frame [of s ?d b "[]" js acc1 j] 2 Cons.prems(1) by simp
  have "search_match (fst acc' ! j)"
    if "\<not> group (fst acc ! j) \<and> include_option_in_results s (fst acc ! j)"
    using m that keep by (simp add: sm_def)
  moreover have "search_match (fst acc' ! i)"
    if "i \<in> set js" "\<not> group (fst acc ! i) \<and> include_option_in_results s (fst acc ! i)" for i
    using ms that stat_fields(1) [OF st [of i]] stat_fields(13) [OF st [of i], of s] by simp
  ultimately show ?case using 1 2 by auto
qed

lemma same_config_refl [simp]: "same_config s s"
  by (simp add: same_config_def)

lemma same_config_include: "same_config s t \<Longrightarrow> include_option_in_results t = include_option_in_results s"
  unfolding fun_eq_iff by (simp add: same_config_def include_option_in_results_def)

lemma same_config_add_option:
  assumes "same_config s t"
  shows "result_add_option t = result_add_option s"
proof -
  have m: "is_multiple t = is_multiple s" using assms by (simp add: same_config_def)
  show ?thesis
    unfolding fun_eq_iff
    by (simp only: result_add_option_def same_config_include [OF assms] m simp_thms)
qed

lemma same_config_add_group: "same_config s t \<Longrightarrow> result_add_group t = result_add_group s"
  unfolding fun_eq_iff by (simp add: result_add_group_def)

lemma same_config_regex:
  "same_config s t \<Longrightarrow> get_search_regex t = get_search_regex s"
  "same_config s t \<Longrightarrow> get_highlight_regex t = get_highlight_regex s"
  unfolding fun_eq_iff
  by (simp_all add: same_config_def get_search_regex_def get_highlight_regex_def)

lemma same_config_match: "same_config s t \<Longrightarrow> search_string_match t = search_string_match s"
  unfolding fun_eq_iff by (simp add: same_config_def search_string_match_def)

lemma same_config_no_results_html: "same_config s t \<Longrightarrow> get_no_results_html t = get_no_results_html s"
  unfolding fun_eq_iff by (simp add: same_config_def get_no_results_html_def)

lemmas same_config_funs = same_config_include same_config_add_option same_config_add_group
  same_config_regex same_config_match same_config_no_results_html

lemma results_option_build_loop_cong:
  assumes "same_config s t"
  shows "results_option_build_loop t cs e = results_option_build_loop s cs e"
proof (induction cs arbitrary: e)
  case Nil
  show ?case by simp
next
  case (Cons c cs)
  have m: "max_shown_results t = max_shown_results s"
    using assms by (simp add: same_config_def)
  show ?case
    by (simp only: results_option_build_loop.simps same_config_funs [OF assms] m Cons.IH)
qed

lemma winnow_match_cong: "same_config s t \<Longrightarrow> winnow_match t = winnow_match s"
  unfolding fun_eq_iff
  by (simp only: winnow_match_def same_config_match simp_thms)

lemma winnow_item_cong:
  assumes "same_config s t"
  shows "winnow_item t = winnow_item s"
proof -
  have m: "group_search t = group_search s" using assms by (simp add: same_config_def)
  show ?thesis
    unfolding fun_eq_iff
    by (simp only: winnow_item_def winnow_match_cong [OF assms] same_config_include [OF assms] m
          simp_thms)
qed

lemma winnow_loop_cong: "same_config s t \<Longrightarrow> winnow_loop t d b g js acc = winnow_loop s d b g js acc"
  by (induction js arbitrary: acc) (simp_all add: winnow_item_cong split: sum.splits)

lemma winnow_pass_cong:
  "same_config s t \<Longrightarrow> search_field t = search_field s \<Longrightarrow> results_data t = results_data s \<Longrightarrow>
   winnow_pass t = winnow_pass s"
  by (simp add: winnow_pass_def winnow_loop_cong same_config_funs get_search_text_def)


lemma same_config_clear [simp]:
  "same_config s (no_results_clear s)"
  "same_config s (result_clear_highlight s)"
  "same_config s (s\<lparr> results_data := rd \<rparr>)"
  "same_config s (s\<lparr> search_results := ls \<rparr>)"
  "same_config s (s\<lparr> result_highlight := h \<rparr>)"
  "same_config s (s\<lparr> triggered := ev \<rparr>)"
  by (simp_all add: same_config_def no_results_clear_def result_clear_highlight_def split: option.splits)

lemma no_results_clear_simps [simp]:
  "winnow_loop (no_results_clear s) = winnow_loop s"
  "get_search_regex (no_results_clear s) = get_search_regex s"
  "get_highlight_regex (no_results_clear s) = get_highlight_regex s"
  "get_search_text (no_results_clear s) = get_search_text s"
  "results_data (no_results_clear s) = results_data s"
proof -
  have c: "same_config s (no_results_clear s)" by simp
  show "winnow_loop (no_results_clear s) = winnow_loop s"
    by (intro ext) (rule winnow_loop_cong [OF c])
  show "get_search_regex (no_results_clear s) = get_search_regex s"
    by (rule same_config_regex(1) [OF c])
  show "get_highlight_regex (no_results_clear s) = get_highlight_regex s"
    by (rule same_config_regex(2) [OF c])
  show "get_search_text (no_results_clear s) = get_search_text s"
    by (simp add: get_search_text_def no_results_clear_def)
  show "results_data (no_results_clear s) = results_data s"
    by (simp add: no_results_clear_def)
qed

lemma cleared_state:
  "update_results_content X (result_clear_highlight ((no_results_clear s)\<lparr> results_data := rd \<rparr>)) =
   s\<lparr> results_data := rd, search_results := X, result_highlight := None \<rparr>"
  by (simp add: update_results_content_def result_clear_highlight_def no_results_clear_def
        split: option.splits)

lemma build_cleared:
  "results_option_build (result_clear_highlight ((no_results_clear s)\<lparr> results_data := rd \<rparr>)) =
   results_option_build_loop s rd 0"
proof -
  let ?t = "result_clear_highlight ((no_results_clear s)\<lparr> results_data := rd \<rparr>)"
  have "same_config s ?t"
    by (simp add: same_config_def no_results_clear_def result_clear_highlight_def split: option.splits)
  moreover have "results_data ?t = rd"
    by (simp add: result_clear_highlight_def split: option.splits)
  ultimately show ?thesis
    by (simp add: results_option_build_def results_option_build_loop_cong)
qed

lemma set_highlight_shape:
  "winnow_results_set_highlight (s\<lparr> results_data := rd, search_results := X, result_highlight := None \<rparr>) =
   s\<lparr> results_data := rd,
      search_results := (case highlight_pick (is_multiple s) X of
                           None \<Rightarrow> X
                         | Some k \<Rightarrow> if k < length X then X[k := addClass ''highlighted'' (X ! k)] else X),
      result_highlight := (case highlight_pick (is_multiple s) X of
                             None \<Rightarrow> None
                           | Some k \<Rightarrow> if k < length X then Some k else None) \<rparr>"
  by (simp add: winnow_results_set_highlight_def highlight_pick_def result_do_highlight_def
        result_clear_highlight_def Let_def split: option.splits)

lemma winnow_results_unfold:
  assumes "winnow_pass s = Inr (rd, e)"
  shows "winnow_results s =
     (if e < 1 \<and> get_search_text s \<noteq> []
      then Inr (no_results (get_search_text s)
                  (s\<lparr> results_data := rd, search_results := [], result_highlight := None \<rparr>))
      else Inr (winnow_results_set_highlight
                  (s\<lparr> results_data := rd, search_results := results_option_build_loop s rd 0,
                      result_highlight := None \<rparr>)))"
proof -
  have "winnow_loop s (get_search_regex s (escape_regex (get_search_text s)))
       (get_highlight_regex s (escape_regex (get_search_text s))) (get_search_text s)
       [0 ..< length (results_data s)] (results_data s, 0) = Inr (rd, e)"
    using assms by (simp add: winnow_pass_def)
  then show ?thesis
    by (simp add: winnow_results_def Let_def cleared_state build_cleared)
qed

lemma no_results_shape:
  "no_results g (s\<lparr> results_data := rd, search_results := [], result_highlight := None \<rparr>) =
   s\<lparr> results_data := rd, search_results := [get_no_results_html s g], result_highlight := None,
      triggered := triggered s @ [No_results] \<rparr>"
proof -
  have h: "get_no_results_html (s\<lparr> results_data := rd, search_results := [], result_highlight := None \<rparr>) =
      get_no_results_html s"
    by (rule same_config_no_results_html) (simp add: same_config_def)
  show ?thesis by (simp add: no_results_def h)
qed

lemma winnow_results_shape:
  assumes "winnow_pass s = Inr (rd, e)"
  shows "winnow_results s =
     Inr (s\<lparr> results_data := rd, search_results := view_list s rd e,
              result_highlight := view_highlight s rd e,
              triggered := triggered s @
                (if e < 1 \<and> get_search_text s \<noteq> [] then [No_results] else []) \<rparr>)"
proof (cases "e < 1 \<and> get_search_text s \<noteq> []")
  case True
  then show ?thesis
    by (simp add: winnow_results_unfold [OF assms] no_results_shape view_list_def view_highlight_def)
next
  case False
  let ?X = "results_option_build_loop s rd 0"
  have vh: "view_highlight s rd e =
      (case highlight_pick (is_multiple s) ?X of None \<Rightarrow> None
       | Some k \<Rightarrow> if k < length ?X then Some k else None)"
    using False by (auto simp: view_highlight_def)
  have vl: "view_list s rd e =
      (case highlight_pick (is_multiple s) ?X of None \<Rightarrow> ?X
       | Some k \<Rightarrow> if k < length ?X then ?X[k := addClass ''highlighted'' (?X ! k)] else ?X)"
    using False by (auto simp: view_list_def vh split: option.splits)
  have "winnow_results s = Inr (winnow_results_set_highlight
                  (s\<lparr> results_data := rd, search_results := ?X, result_highlight := None \<rparr>))"
    using False by (auto simp: winnow_results_unfold [OF assms])
  also have "\<dots> = Inr (s\<lparr> results_data := rd, search_results := view_list s rd e,
              result_highlight := view_highlight s rd e \<rparr>)"
    by (simp only: set_highlight_shape vh vl)
  finally show ?thesis using False by auto
qed

lemma winnow_results_throws:
  assumes "winnow_pass s = Inl (err, (rd, e))"
  shows "winnow_results s = Inl (err, (no_results_clear s)\<lparr> results_data := rd \<rparr>)"
  using assms [unfolded winnow_pass_def] by (simp add: winnow_results_def Let_def)


text \<open>
  Claim C6. When the search text is empty, \<open>winnow_results\<close> returns, every option that
  \<open>include_option_in_results\<close> admits is marked as matching, no no-results notification is
  triggered and the rendered list is the list built from the entries. For any search text,
  the no-results entry is rendered, and the notification triggered, exactly when the counter
  of matches is zero and the search text is not empty.
\<close>

theorem empty_query_matches_all:
  "(get_search_text s = [] \<longrightarrow>
      (\<exists>s'. winnow_results s = Inr s' \<and>
         length (results_data s') = length (results_data s) \<and>
         (\<forall>j < length (results_data s).
            \<not> group (results_data s ! j) \<and> include_option_in_results s (results_data s ! j) \<longrightarrow>
              search_match (results_data s' ! j)) \<and>
         triggered s' = triggered s \<and>
         search_results s' =
           (case result_highlight s' of
              None \<Rightarrow> results_option_build_loop s (results_data s') 0
            | Some k \<Rightarrow> (results_option_build_loop s (results_data s') 0)
                [k := addClass ''highlighted'' (results_option_build_loop s (results_data s') 0 ! k)]))) \<and>
   (winnow_results t = Inr t' \<longrightarrow>
      (if total_matches t < 1 \<and> get_search_text t \<noteq> []
       then triggered t' = triggered t @ [No_results] \<and>
            search_results t' = [get_no_results_html t (get_search_text t)]
       else triggered t' = triggered t \<and>
            search_results t' =
              (case result_highlight t' of
                 None \<Rightarrow> results_option_build_loop t (results_data t') 0
               | Some k \<Rightarrow> (results_option_build_loop t (results_data t') 0)
                   [k := addClass ''highlighted'' (results_option_build_loop t (results_data t') 0 ! k)])))"
proof (intro conjI impI)
  assume g: "get_search_text s = []"
  have "distinct [0 ..< length (results_data s)]" by simp
  moreover have "\<forall>j \<in> set [0 ..< length (results_data s)]. j < length (fst (results_data s, 0 :: nat))"
    by simp
  ultimately obtain acc' where
    loop: "winnow_loop s (get_search_regex s []) (get_highlight_regex s []) []
             [0 ..< length (results_data s)] (results_data s, 0) = Inr acc'"
    and ms: "\<forall>j \<in> set [0 ..< length (results_data s)].
               \<not> group (fst (results_data s, 0 :: nat) ! j) \<and>
               include_option_in_results s (fst (results_data s, 0 :: nat) ! j) \<longrightarrow>
               search_match (fst acc' ! j)"
    using winnow_loop_empty_query [of "[0 ..< length (results_data s)]" "(results_data s, 0)" s
        "get_highlight_regex s []"]
    by blast
  obtain rd e where acc': "acc' = (rd, e)" by (cases acc')
  have pass: "winnow_pass s = Inr (rd, e)"
    using loop acc' g by (simp add: winnow_pass_def)
  have len: "length rd = length (results_data s)"
    using winnow_loop_frame [of s "get_search_regex s []" "get_highlight_regex s []" "[]"
        "[0 ..< length (results_data s)]" "(results_data s, 0)" 0] loop acc'
    by simp
  show "\<exists>s'. winnow_results s = Inr s' \<and>
         length (results_data s') = length (results_data s) \<and>
         (\<forall>j < length (results_data s).
            \<not> group (results_data s ! j) \<and> include_option_in_results s (results_data s ! j) \<longrightarrow>
              search_match (results_data s' ! j)) \<and>
         triggered s' = triggered s \<and>
         search_results s' =
           (case result_highlight s' of
              None \<Rightarrow> results_option_build_loop s (results_data s') 0
            | Some k \<Rightarrow> (results_option_build_loop s (results_data s') 0)
                [k := addClass ''highlighted'' (results_option_build_loop s (results_data s') 0 ! k)])"
    using ms acc' len g
    by (auto simp: winnow_results_shape [OF pass] view_list_def view_highlight_def
          split: option.splits)
next
  assume w: "winnow_results t = Inr t'"
  show "if total_matches t < 1 \<and> get_search_text t \<noteq> []
       then triggered t' = triggered t @ [No_results] \<and>
            search_results t' = [get_no_results_html t (get_search_text t)]
       else triggered t' = triggered t \<and>
            search_results t' =
              (case result_highlight t' of
                 None \<Rightarrow> results_option_build_loop t (results_data t') 0
               | Some k \<Rightarrow> (results_option_build_loop t (results_data t') 0)
                   [k := addClass ''highlighted'' (results_option_build_loop t (results_data t') 0 ! k)])"
  proof (cases "winnow_pass t")
    case (Inl x)
    obtain err rd e where "x = (err, (rd, e))" by (cases x) auto
    then show ?thesis using w winnow_results_throws [of t err rd e] Inl by simp
  next
    case (Inr acc)
    obtain rd e where acc: "acc = (rd, e)" by (cases acc)
    have tm: "total_matches t = e"
      by (simp add: total_matches_def Inr acc)
    show ?thesis
      using w winnow_results_shape [of t rd e] Inr acc tm
      by (auto simp: view_list_def view_highlight_def split: option.splits)
  qed
qed

theorem empty_query_matches_all_witness:
  "get_search_text opened_unbounded = [] \<and>
   (\<exists>s'. winnow_results opened_unbounded = Inr s' \<and>
      length (results_data s') = length (results_data opened_unbounded) \<and>
      (\<forall>j < length (results_data opened_unbounded).
         \<not> group (results_data opened_unbounded ! j) \<and>
         include_option_in_results opened_unbounded (results_data opened_unbounded ! j) \<longrightarrow>
           search_match (results_data s' ! j)) \<and>
      triggered s' = triggered opened_unbounded) \<and>
   winnow_results typed_zz = Inr (after (winnow_results typed_zz)) \<and>
   total_matches typed_zz < 1 \<and> get_search_text typed_zz \<noteq> [] \<and>
   triggered (after (winnow_results typed_zz)) = triggered typed_zz @ [No_results] \<and>
   search_results (after (winnow_results typed_zz)) =
     [get_no_results_html typed_zz (get_search_text typed_zz)]"
proof -
  have h1: "get_search_text opened_unbounded = []" by code_simp
  have h2: "winnow_results typed_zz = Inr (after (winnow_results typed_zz))" by code_simp
  have h3: "total_matches typed_zz < 1" "get_search_text typed_zz \<noteq> []" by code_simp+
  from empty_query_matches_all [of opened_unbounded typed_zz "after (winnow_results typed_zz)"]
    h1 h2 h3
  show ?thesis by auto
qed

section \<open>Well-formed flat lists and entries with empty text\<close>

lemma well_formed_wf_at: "well_formed rd = (\<forall>j < length rd. wf_at rd j)"
  by (simp add: well_formed_def wf_at_def)

lemma wf_at_prefix: "j < length A \<Longrightarrow> wf_at (A @ B) j = wf_at A j"
  by (auto simp: wf_at_def nth_append)

lemma indexed_from_nth: "indexed_from f a xs \<Longrightarrow> k < length xs \<Longrightarrow> xs ! k = f (a + k)"
proof (induction xs arbitrary: a k)
  case Nil
  then show ?case by simp
next
  case (Cons x xs)
  then show ?case by (cases k) auto
qed

lemma well_formed_snoc_option:
  assumes "well_formed A"
  shows "well_formed (A @ [flat_option (length A) oi None None False el])"
proof -
  let ?L = "A @ [flat_option (length A) oi None None False el]"
  have "wf_at ?L j" if "j < length ?L" for j
  proof (cases "j < length A")
    case True
    then show ?thesis using assms by (simp add: wf_at_prefix well_formed_wf_at)
  next
    case False
    then have "j = length A" using that by simp
    then show ?thesis by (simp add: wf_at_def)
  qed
  then show ?thesis by (simp only: well_formed_wf_at) blast
qed

lemma well_formed_group_block:
  assumes "well_formed A"
  shows "well_formed (A @ flat_group (length A) g cs #
           flat_children (length A) gl (grp_disabled g) (Suc (length A)) oi cs)"
proof -
  let ?G = "flat_group (length A) g cs"
  let ?K = "flat_children (length A) gl (grp_disabled g) (Suc (length A)) oi cs"
  let ?L = "A @ ?G # ?K"
  have kid: "\<not> group (?K ! k) \<and> array_index (?K ! k) = Suc (length A) + k \<and>
      group_array_index (?K ! k) = (if empty (?K ! k) then None else Some (length A)) \<and>
      (grp_disabled g \<longrightarrow> \<not> empty (?K ! k) \<longrightarrow> disabled (?K ! k))"
    if "k < length ?K" for k
  proof -
    have "?K ! k \<in> set ?K" using that by simp
    from flat_children_group [OF this] have 1: "\<not> group (?K ! k)"
      "group_array_index (?K ! k) = (if empty (?K ! k) then None else Some (length A))"
      "grp_disabled g \<longrightarrow> \<not> empty (?K ! k) \<longrightarrow> disabled (?K ! k)"
      by simp_all
    have "map array_index ?K ! k = Suc (length A) + k"
      using indexed_from_nth [OF flat_children_array_index, of k] that by simp
    then have "array_index (?K ! k) = Suc (length A) + k" using that by simp
    then show ?thesis using 1 by simp
  qed
  have "wf_at ?L j" if j: "j < length ?L" for j
  proof -
    have "j < length A \<or> j = length A \<or>
        (j = Suc (length A) + (j - Suc (length A)) \<and> j - Suc (length A) < length ?K)"
      using j by auto
    then consider "j < length A" | "j = length A" | k where "j = Suc (length A) + k" "k < length ?K"
      by blast
    then show ?thesis
    proof cases
      case 1
      then show ?thesis using assms by (simp add: wf_at_prefix well_formed_wf_at)
    next
      case 2
      then show ?thesis by (simp add: wf_at_def)
    next
      case 3
      have nth: "?L ! (Suc (length A) + i) = ?K ! i" for i
        by (simp add: nth_append)
      have G: "?L ! length A = ?G" by simp
      have between: "\<not> group (?L ! k')" if lo: "length A < k'" and hi: "k' \<le> j" for k'
      proof -
        have i: "k' = Suc (length A) + (k' - Suc (length A))" "k' - Suc (length A) < length ?K"
          using lo hi 3 by simp_all
        have "?L ! k' = ?K ! (k' - Suc (length A))"
          using nth [of "k' - Suc (length A)"] i(1) by simp
        then show ?thesis using kid [OF i(2)] by simp
      qed
      have Lj: "?L ! j = ?K ! k" unfolding 3(1) by (rule nth)
      have Gf: "group ?G" "disabled ?G = grp_disabled g" by simp_all
      note K = kid [OF 3(2)]
      have a: "array_index (?L ! j) = j" unfolding Lj using K 3(1) by simp
      have b: "\<not> group (?L ! j)" unfolding Lj using K by blast
      have c: "gi < j \<and> group (?L ! gi) \<and> (disabled (?L ! gi) \<longrightarrow> disabled (?L ! j)) \<and>
            (\<forall>k. gi < k \<and> k \<le> j \<longrightarrow> \<not> group (?L ! k))"
        if gi: "group_array_index (?L ! j) = Some gi" for gi
      proof -
        have gk: "group_array_index (?K ! k) = Some gi" using gi unfolding Lj .
        have e: "\<not> empty (?K ! k)" using gk K by (cases "empty (?K ! k)") simp_all
        have g: "gi = length A" using gk K e by simp
        have "disabled (?L ! gi) = grp_disabled g" by (simp only: g G Gf)
        then have "disabled (?L ! gi) \<longrightarrow> disabled (?L ! j)"
          using K e by (simp only: Lj) blast
        moreover have "gi < j" unfolding g 3(1) by simp
        moreover have "group (?L ! gi)" unfolding g G by (rule Gf)
        moreover have "\<forall>k. gi < k \<and> k \<le> j \<longrightarrow> \<not> group (?L ! k)"
        proof (intro allI impI)
          fix k' assume "gi < k' \<and> k' \<le> j"
          then have "length A < k'" "k' \<le> j" using g by simp_all
          then show "\<not> group (?L ! k')" by (rule between)
        qed
        ultimately show ?thesis by blast
      qed
      show ?thesis unfolding wf_at_def using a b c by blast
    qed
  qed
  then show ?thesis by (simp only: well_formed_wf_at) blast
qed

lemma well_formed_append_flatten:
  "well_formed A \<Longrightarrow> well_formed (A @ flatten (length A) oi ns)"
proof (induction ns arbitrary: A oi)
  case Nil
  then show ?case by simp
next
  case (Cons n ns)
  show ?case
  proof (cases n)
    case (OPTION el)
    let ?B = "A @ [flat_option (length A) oi None None False el]"
    have "well_formed ?B" using Cons.prems by (rule well_formed_snoc_option)
    then have "well_formed (?B @ flatten (length ?B) (Suc oi) ns)" by (rule Cons.IH)
    then show ?thesis by (simp add: OPTION)
  next
    case (OPTGROUP g cs)
    let ?B = "A @ flat_group (length A) g cs #
      flat_children (length A) (escapeExpression (JStr (grp_label g))) (grp_disabled g)
        (Suc (length A)) oi cs"
    have "well_formed ?B" using Cons.prems by (rule well_formed_group_block)
    then have "well_formed (?B @ flatten (length ?B) (oi + length (child_options cs)) ns)"
      by (rule Cons.IH)
    then show ?thesis by (simp add: OPTGROUP)
  next
    case OTHER
    then show ?thesis using Cons.IH [OF Cons.prems] by simp
  qed
qed

lemma well_formed_Nil: "well_formed []"
  by (simp add: well_formed_def)

lemma well_formed_flatten: "well_formed (flatten 0 0 ns)"
  using well_formed_append_flatten [OF well_formed_Nil, of 0 ns] by simp


lemma include_option_in_results_empty: "empty it \<Longrightarrow> \<not> include_option_in_results s it"
  by (simp add: include_option_in_results_def)

lemma winnow_item_excluded:
  assumes "j < length rd" and "\<not> include_option_in_results s (rd ! j)"
  shows "winnow_item s d b g j (rd, e) = Inr (rd[j := (rd ! j)\<lparr> search_match := False \<rparr>], e)"
proof -
  have "include_option_in_results s ((rd ! j)\<lparr> search_match := False \<rparr>) =
        include_option_in_results s (rd ! j)"
    by (simp add: include_option_in_results_def)
  then show ?thesis using assms by (simp add: winnow_item_def Let_def)
qed

lemma results_option_build_loop_index:
  "l \<in> set (results_option_build_loop s cs e) \<Longrightarrow> li_index l = Some k \<Longrightarrow>
     \<exists>c \<in> set cs. array_index c = k \<and> \<not> group c \<and> include_option_in_results s c"
proof (induction cs arbitrary: e)
  case Nil
  then show ?case by simp
next
  case (Cons c cs)
  let ?d = "if group c then result_add_group s c else result_add_option s c"
  let ?e = "if ?d \<noteq> None then e + 1 else e"
  have "set (results_option_build_loop s (c # cs) e) \<subseteq>
        set (case ?d of None \<Rightarrow> [] | Some l \<Rightarrow> [l]) \<union> set (results_option_build_loop s cs ?e)"
    by (simp only: results_option_build_loop.simps Let_def set_append) auto
  with Cons.prems(1) have "l \<in> set (case ?d of None \<Rightarrow> [] | Some l \<Rightarrow> [l]) \<or>
      l \<in> set (results_option_build_loop s cs ?e)"
    by blast
  then have "?d = Some l \<or> l \<in> set (results_option_build_loop s cs ?e)"
    by (cases ?d) auto
  then show ?case
  proof
    assume d: "?d = Some l"
    have "array_index c = k \<and> \<not> group c \<and> include_option_in_results s c"
    proof (cases "group c")
      case True
      then have "result_add_group s c = Some l" using d by simp
      then have "li_index l = None"
        by (auto simp: result_add_group_def split: if_splits)
      then show ?thesis using Cons.prems(2) by simp
    next
      case False
      then have "result_add_option s c = Some l" using d by simp
      then have "li_index l = Some (array_index c) \<and> include_option_in_results s c"
        by (auto simp: result_add_option_def split: if_splits)
      then show ?thesis using Cons.prems(2) False by simp
    qed
    then show ?thesis by simp
  next
    assume "l \<in> set (results_option_build_loop s cs ?e)"
    from Cons.IH [OF this Cons.prems(2)] show ?thesis by auto
  qed
qed

lemma well_formed_index:
  assumes "well_formed rd" and "c \<in> set rd"
  shows "array_index c < length rd \<and> rd ! array_index c = c"
proof -
  from assms(2) obtain j where j: "j < length rd" "rd ! j = c"
    by (auto simp: in_set_conv_nth)
  from assms(1) j(1) have "wf_at rd j" by (simp add: well_formed_wf_at)
  then have "array_index (rd ! j) = j" by (simp add: wf_at_def)
  then show ?thesis using j by simp
qed

lemma rendered_not_empty:
  assumes "well_formed rd" and "l \<in> set (results_option_build_loop s rd e)" and "li_index l = Some k"
  shows "k < length rd \<and> \<not> group (rd ! k) \<and> include_option_in_results s (rd ! k)"
proof -
  from results_option_build_loop_index [OF assms(2,3)]
  obtain c where c: "c \<in> set rd" "array_index c = k" "\<not> group c" "include_option_in_results s c"
    by blast
  from well_formed_index [OF assms(1) c(1)] c show ?thesis by simp
qed


lemma winnow_match_returns:
  assumes "j < length (fst acc)"
    and "\<forall>gi. group_array_index (fst acc ! j) = Some gi \<longrightarrow> gi < length (fst acc)"
  shows "\<exists>acc'. winnow_match s d b g j f acc = Inr acc'"
  using assms
  by (simp add: winnow_match_def Let_def split: option.splits)

lemma winnow_item_returns:
  assumes "j < length (fst acc)"
    and "\<forall>gi. group_array_index (fst acc ! j) = Some gi \<longrightarrow> gi < length (fst acc)"
  shows "\<exists>acc'. winnow_item s d b g j acc = Inr acc'"
proof -
  let ?rd = "fst acc" and ?e = "snd acc"
  let ?rd1 = "?rd[j := (?rd ! j)\<lparr> search_match := False \<rparr>]"
  show ?thesis
  proof (cases "include_option_in_results s (?rd1 ! j)")
    case False
    then show ?thesis by (simp add: winnow_item_def Let_def)
  next
    case True
    let ?rd2 = "if group (?rd1 ! j)
                then ?rd1[j := (?rd1 ! j)\<lparr> group_match := False, active_options := Some 0 \<rparr>]
                else ?rd1"
    let ?f = "group_of ?rd2 j"
    let ?acc3 = "winnow_count ?f (?rd2, ?e)"
    let ?rd3 = "fst ?acc3"
    let ?rd4 = "?rd3[j := (?rd3 ! j)\<lparr> search_text :=
                              (if group (?rd3 ! j) then label (?rd3 ! j) else html (?rd3 ! j)) \<rparr>]"
    have len: "length ?rd4 = length ?rd" by simp
    have "stat (?rd4 ! j) = stat (?rd ! j)" by simp
    then have gai: "group_array_index (?rd4 ! j) = group_array_index (?rd ! j)"
      by (rule stat_fields)
    have "\<exists>acc'. winnow_match s d b g j ?f (?rd4, snd ?acc3) = Inr acc'"
      by (rule winnow_match_returns) (use assms len gai in \<open>simp_all del: length_list_update\<close>)
    then show ?thesis
      using True by (simp add: winnow_item_def Let_def del: length_list_update)
  qed
qed

lemma winnow_loop_returns:
  assumes "\<forall>j \<in> set js. j < length (fst acc) \<and>
             (\<forall>gi. group_array_index (fst acc ! j) = Some gi \<longrightarrow> gi < length (fst acc))"
  shows "\<exists>acc'. winnow_loop s d b g js acc = Inr acc'"
  using assms
proof (induction js arbitrary: acc)
  case Nil
  show ?case by simp
next
  case (Cons j js)
  obtain acc1 where 1: "winnow_item s d b g j acc = Inr acc1"
    using winnow_item_returns [of j acc s d b g] Cons.prems by auto
  have len: "length (fst acc1) = length (fst acc)"
    using winnow_item_length [of s d b g j acc] 1 by simp
  have st: "stat (fst acc1 ! i) = stat (fst acc ! i)" for i
    using winnow_item_stat [of s d b g j acc i] 1 by simp
  have "\<forall>i \<in> set js. i < length (fst acc1) \<and>
             (\<forall>gi. group_array_index (fst acc1 ! i) = Some gi \<longrightarrow> gi < length (fst acc1))"
    using Cons.prems len stat_fields(5) [OF st] by simp
  from Cons.IH [OF this] 1 show ?case by simp
qed

lemma winnow_item_excluded_sm:
  assumes "j < length (fst acc)" and "\<not> include_option_in_results s (fst acc ! j)"
    and "winnow_item s d b g j acc = Inr acc'"
  shows "\<not> search_match (fst acc' ! j)"
  using winnow_item_excluded [OF assms(1,2), of d b g "snd acc"] assms(1,3) by auto

lemma winnow_loop_excluded:
  assumes "distinct js" and "\<forall>j \<in> set js. j < length (fst acc)"
    and "winnow_loop s d b g js acc = Inr acc'"
    and "j \<in> set js" and "\<not> include_option_in_results s (fst acc ! j)"
  shows "\<not> search_match (fst acc' ! j)"
  using assms
proof (induction js arbitrary: acc)
  case Nil
  then show ?case by simp
next
  case (Cons i js)
  from Cons.prems(3) obtain acc1 where 1: "winnow_item s d b g i acc = Inr acc1"
    and 2: "winnow_loop s d b g js acc1 = Inr acc'"
    by (cases "winnow_item s d b g i acc") simp_all
  have len: "length (fst acc1) = length (fst acc)"
    using winnow_item_length [of s d b g i acc] 1 by simp
  have st: "stat (fst acc1 ! k) = stat (fst acc ! k)" for k
    using winnow_item_stat [of s d b g i acc k] 1 by simp
  show ?case
  proof (cases "j \<in> set js")
    case True
    have "\<not> include_option_in_results s (fst acc1 ! j)"
      using Cons.prems(5) stat_fields(13) [OF st [of j], of s] by simp
    moreover have "distinct js" "\<forall>j \<in> set js. j < length (fst acc1)"
      using Cons.prems(1,2) len by simp_all
    ultimately show ?thesis using Cons.IH [of acc1] 2 True by blast
  next
    case False
    then have ji: "j = i" using Cons.prems(4) by simp
    have "\<not> search_match (fst acc1 ! j)"
      using winnow_item_excluded_sm [of i acc s d b g acc1] Cons.prems(2,5) 1 ji by simp
    moreover have "sm (fst acc' ! j) = sm (fst acc1 ! j)"
      using winnow_loop_frame [of s d b g js acc1 j] 2 False by simp
    ultimately show ?thesis by (simp add: sm_def)
  qed
qed

lemma view_list_index:
  assumes "l \<in> set (view_list s rd e)" and "li_index l = Some k"
  shows "\<exists>l' \<in> set (results_option_build_loop s rd 0). li_index l' = Some k"
proof (cases "e < 1 \<and> get_search_text s \<noteq> []")
  case True
  then have "l = get_no_results_html s (get_search_text s)"
    using assms(1) by (simp add: view_list_def)
  then show ?thesis using assms(2) by (simp add: get_no_results_html_def)
next
  case False
  let ?X = "results_option_build_loop s rd 0"
  show ?thesis
  proof (cases "view_highlight s rd e")
    case None
    then show ?thesis using assms False by (auto simp: view_list_def)
  next
    case (Some h)
    have "view_list s rd e = ?X[h := addClass ''highlighted'' (?X ! h)]"
      unfolding view_list_def using False Some by (simp only: if_False option.case)
    then have "l \<in> set (?X[h := addClass ''highlighted'' (?X ! h)])"
      using assms(1) by simp
    then have "l \<in> set ?X \<or> l = addClass ''highlighted'' (?X ! h) \<and> h < length ?X"
      by (cases "h < length ?X")
         (auto simp: list_update_beyond dest: set_update_subset_insert [THEN subsetD])
    then show ?thesis
    proof
      assume "l \<in> set ?X"
      then show ?thesis using assms(2) by blast
    next
      assume a: "l = addClass ''highlighted'' (?X ! h) \<and> h < length ?X"
      then have "li_index (?X ! h) = Some k"
        using assms(2) by (simp add: addClass_def split: if_splits)
      moreover have "?X ! h \<in> set ?X" using a by simp
      ultimately show ?thesis by blast
    qed
  qed
qed

lemma winnow_results_returns:
  assumes "winnow_results s = Inr s'"
  shows "\<exists>rd e. winnow_pass s = Inr (rd, e) \<and> results_data s' = rd \<and>
           search_results s' = view_list s rd e"
proof (cases "winnow_pass s")
  case (Inl x)
  obtain err rd e where "x = (err, (rd, e))" by (cases x) auto
  from winnow_results_throws [OF Inl [unfolded this]] assms show ?thesis by simp
next
  case (Inr y)
  obtain rd e where y: "y = (rd, e)" by (cases y)
  from winnow_results_shape [OF Inr [unfolded y]] assms have
    "s' = s\<lparr> results_data := rd, search_results := view_list s rd e,
              result_highlight := view_highlight s rd e,
              triggered := triggered s @ (if e < 1 \<and> get_search_text s \<noteq> [] then [No_results] else []) \<rparr>"
    by simp
  then have "results_data s' = rd \<and> search_results s' = view_list s rd e" by simp
  then show ?thesis using Inr y by simp
qed

lemma well_formed_stat:
  assumes "length B = length A" and "\<And>i. stat (B ! i) = stat (A ! i)" and "well_formed A"
  shows "well_formed B"
proof -
  have eqs: "array_index (B ! i) = array_index (A ! i)" "group (B ! i) = group (A ! i)"
    "group_array_index (B ! i) = group_array_index (A ! i)" "selected (B ! i) = selected (A ! i)"
    "empty (B ! i) = empty (A ! i)" "disabled (B ! i) = disabled (A ! i)" for i
    using stat_fields [OF assms(2) [of i]] by simp_all
  show ?thesis
    using assms(3) unfolding well_formed_def by (simp only: eqs assms(1))
qed

lemma winnow_pass_returns:
  assumes "well_formed (results_data s)"
  shows "\<exists>rd e. winnow_pass s = Inr (rd, e) \<and> length rd = length (results_data s) \<and>
           (\<forall>i. stat (rd ! i) = stat (results_data s ! i)) \<and>
           (\<forall>j < length rd. \<not> include_option_in_results s (results_data s ! j) \<longrightarrow>
              \<not> search_match (rd ! j))"
proof -
  let ?rd = "results_data s"
  let ?d = "get_search_regex s (escape_regex (get_search_text s))"
  let ?b = "get_highlight_regex s (escape_regex (get_search_text s))"
  let ?g = "get_search_text s"
  let ?js = "[0 ..< length ?rd]"
  have gi: "gi < length ?rd" if "j < length ?rd" "group_array_index (?rd ! j) = Some gi" for j gi
  proof -
    from assms that(1) have "wf_at ?rd j" by (simp add: well_formed_wf_at)
    then have "gi < j" using that(2) by (simp add: wf_at_def)
    then show ?thesis using that(1) by simp
  qed
  have "\<forall>j \<in> set ?js. j < length (fst (?rd, 0::nat)) \<and>
      (\<forall>gi. group_array_index (fst (?rd, 0::nat) ! j) = Some gi \<longrightarrow> gi < length (fst (?rd, 0::nat)))"
    using gi by (simp del: upt_Suc)
  from winnow_loop_returns [OF this, of s ?d ?b ?g]
  obtain acc' where l: "winnow_loop s ?d ?b ?g ?js (?rd, 0) = Inr acc'" by blast
  obtain rd e where acc': "acc' = (rd, e)" by (cases acc')
  have p: "winnow_pass s = Inr (rd, e)" using l acc' by (simp add: winnow_pass_def)
  have len: "length rd = length ?rd"
    using winnow_loop_frame [of s ?d ?b ?g ?js "(?rd, 0)" 0] l acc' by simp
  have st: "stat (rd ! i) = stat (?rd ! i)" for i
    using winnow_loop_frame [of s ?d ?b ?g ?js "(?rd, 0)" i] l acc' by simp
  have ex: "\<not> search_match (rd ! j)"
    if "j < length rd" "\<not> include_option_in_results s (?rd ! j)" for j
  proof -
    have "distinct ?js" by simp
    moreover have "\<forall>j \<in> set ?js. j < length (fst (?rd, 0::nat))" by (simp del: upt_Suc)
    moreover note l
    moreover have "j \<in> set ?js" using that(1) len by (simp del: upt_Suc)
    moreover have "\<not> include_option_in_results s (fst (?rd, 0::nat) ! j)" using that(2) by simp
    ultimately have "\<not> search_match (fst acc' ! j)"
      by (rule winnow_loop_excluded)
    then show ?thesis using acc' by simp
  qed
  show ?thesis using p len st ex by blast
qed

lemma filtered_excludes_empty:
  assumes wf: "well_formed rd"
  shows "\<exists>s'. winnow_results (s\<lparr> results_data := rd \<rparr>) = Inr s' \<and>
      (\<forall>j < length rd. empty (rd ! j) \<longrightarrow> \<not> search_match (results_data s' ! j)) \<and>
      (\<forall>l \<in> set (search_results s'). \<forall>k. li_index l = Some k \<longrightarrow> k < length rd \<and> \<not> empty (rd ! k))"
proof -
  let ?t = "s\<lparr> results_data := rd \<rparr>"
  have "well_formed (results_data ?t)" using wf by simp
  from winnow_pass_returns [OF this]
  obtain rd' e where p: "winnow_pass ?t = Inr (rd', e)" and len: "length rd' = length rd"
    and st: "\<And>i. stat (rd' ! i) = stat (rd ! i)"
    and ex: "\<And>j. j < length rd' \<Longrightarrow> \<not> include_option_in_results ?t (rd ! j) \<Longrightarrow> \<not> search_match (rd' ! j)"
    by auto
  let ?s' = "?t\<lparr> results_data := rd', search_results := view_list ?t rd' e,
                result_highlight := view_highlight ?t rd' e,
                triggered := triggered ?t @ (if e < 1 \<and> get_search_text ?t \<noteq> [] then [No_results] else []) \<rparr>"
  have r: "winnow_results ?t = Inr ?s'" by (rule winnow_results_shape [OF p])
  have wf': "well_formed rd'" by (rule well_formed_stat [OF len st wf])
  have a: "\<not> search_match (results_data ?s' ! j)" if "j < length rd" "empty (rd ! j)" for j
  proof -
    have "\<not> include_option_in_results ?t (rd ! j)"
      using that(2) by (rule include_option_in_results_empty)
    from ex [OF _ this] that(1) len show ?thesis by simp
  qed
  have b: "k < length rd \<and> \<not> empty (rd ! k)"
    if "l \<in> set (search_results ?s')" "li_index l = Some k" for l k
  proof -
    from that(1) have "l \<in> set (view_list ?t rd' e)" by simp
    from view_list_index [OF this that(2)]
    obtain l' where l': "l' \<in> set (results_option_build_loop ?t rd' 0)" "li_index l' = Some k"
      by blast
    from rendered_not_empty [OF wf' l']
    have k: "k < length rd'" "include_option_in_results ?t (rd' ! k)" by simp_all
    have "\<not> empty (rd' ! k)"
      using k(2) include_option_in_results_empty [of "rd' ! k" ?t] by blast
    then show ?thesis using k(1) len stat_fields(2) [OF st [of k]] by simp
  qed
  have a': "\<forall>j < length rd. empty (rd ! j) \<longrightarrow> \<not> search_match (results_data ?s' ! j)"
  proof (intro allI impI)
    fix j assume "j < length rd" and "empty (rd ! j)"
    then show "\<not> search_match (results_data ?s' ! j)" by (rule a)
  qed
  have b': "\<forall>l \<in> set (search_results ?s'). \<forall>k. li_index l = Some k \<longrightarrow> k < length rd \<and> \<not> empty (rd ! k)"
  proof (intro ballI allI impI)
    fix l k assume "l \<in> set (search_results ?s')" and "li_index l = Some k"
    then show "k < length rd \<and> \<not> empty (rd ! k)" by (rule b)
  qed
  show ?thesis
    by (rule exI [of _ ?s'], intro conjI) (rule r, rule a', rule b')
qed

text \<open>
  Claim C5. For every host list the parser returns the flat list \<open>flatten\<close> describes:
  the records of the options in document order, each group record directly followed by the
  records of its own option children. The option records that are not marked empty are as
  many as the host options with non-empty text, and carry their texts in the same order;
  an option record is marked empty exactly when the text of its host option is empty. The
  records are numbered by their position and the option records by the position of their
  host option, and the list is well formed. A record marked empty is left out of the search
  and of the rendering: \<open>include_option_in_results\<close> rejects it, \<open>result_add_option\<close>
  renders nothing for it, and its round of the filter loop only clears its match flag,
  without counting it. The filter on the parsed list returns, whatever the search text; after
  it no record marked empty is flagged as a match and no rendered entry refers to one.
\<close>

theorem parse_counts_order_and_empty:
  "\<exists>rd. select_to_array ns = Inr rd \<and> rd = flatten 0 0 ns \<and>
     length (filter (\<lambda>it. \<not> group it \<and> \<not> empty it) rd) =
       length (filter (\<lambda>el. opt_text el \<noteq> []) (concat (map el_options ns))) \<and>
     map text' (filter (\<lambda>it. \<not> group it \<and> \<not> empty it) rd) =
       map opt_text (filter (\<lambda>el. opt_text el \<noteq> []) (concat (map el_options ns))) \<and>
     map empty (filter (\<lambda>it. \<not> group it) rd) =
       map (\<lambda>el. opt_text el = []) (concat (map el_options ns)) \<and>
     map array_index rd = [0 ..< length rd] \<and>
     map options_index (filter (\<lambda>it. \<not> group it) rd) =
       map Some [0 ..< length (concat (map el_options ns))] \<and>
     well_formed rd \<and>
     (\<forall>j < length rd. empty (rd ! j) \<longrightarrow>
        \<not> include_option_in_results s (rd ! j) \<and>
        result_add_option s (rd ! j) = None \<and>
        winnow_item s d b g j (rd, e) = Inr (rd[j := (rd ! j)\<lparr> search_match := False \<rparr>], e)) \<and>
     (\<exists>s'. winnow_results (s\<lparr> results_data := rd \<rparr>) = Inr s' \<and>
        (\<forall>j < length rd. empty (rd ! j) \<longrightarrow> \<not> search_match (results_data s' ! j)) \<and>
        (\<forall>l \<in> set (search_results s').
           \<forall>k. li_index l = Some k \<longrightarrow> k < length rd \<and> \<not> empty (rd ! k)))"
proof -
  let ?rd = "flatten 0 0 ns"
  let ?os = "concat (map el_options ns)"
  have 1: "map text' (filter (\<lambda>it. \<not> group it \<and> \<not> empty it) ?rd) =
      map opt_text (filter (\<lambda>el. opt_text el \<noteq> []) ?os)"
    by (rule map_text_flatten)
  have 2: "length (filter (\<lambda>it. \<not> group it \<and> \<not> empty it) ?rd) =
      length (filter (\<lambda>el. opt_text el \<noteq> []) ?os)"
    using arg_cong [OF 1, of length] by simp
  have 3: "map empty (filter (\<lambda>it. \<not> group it) ?rd) = map (\<lambda>el. opt_text el = []) ?os"
    by (rule flatten_empty)
  have "map array_index ?rd = [0 ..< 0 + length ?rd]"
    by (rule indexed_from_id_upt [OF flatten_array_index]) simp
  then have 4: "map array_index ?rd = [0 ..< length ?rd]"
    by (simp only: add_0)
  have "map options_index (filter (\<lambda>it. \<not> group it) ?rd) = map Some [0 ..< 0 + length ?os]"
    by (rule indexed_from_map_upt [OF flatten_options_index]) (simp add: length_nongroup_flatten)
  then have 5: "map options_index (filter (\<lambda>it. \<not> group it) ?rd) = map Some [0 ..< length ?os]"
    by (simp only: add_0)
  have 6: "well_formed ?rd" by (rule well_formed_flatten)
  have 7: "\<forall>j < length ?rd. empty (?rd ! j) \<longrightarrow>
      \<not> include_option_in_results s (?rd ! j) \<and> result_add_option s (?rd ! j) = None \<and>
      winnow_item s d b g j (?rd, e) = Inr (?rd[j := (?rd ! j)\<lparr> search_match := False \<rparr>], e)"
  proof (intro allI impI)
    fix j assume j: "j < length ?rd" and em: "empty (?rd ! j)"
    have n: "\<not> include_option_in_results s (?rd ! j)"
      using em by (rule include_option_in_results_empty)
    moreover have "result_add_option s (?rd ! j) = None"
      using n by (simp add: result_add_option_def)
    moreover note winnow_item_excluded [OF j n]
    ultimately show "\<not> include_option_in_results s (?rd ! j) \<and> result_add_option s (?rd ! j) = None \<and>
      winnow_item s d b g j (?rd, e) = Inr (?rd[j := (?rd ! j)\<lparr> search_match := False \<rparr>], e)"
      by (intro conjI)
  qed
  note 8 = filtered_excludes_empty [OF 6, of s]
  show ?thesis
    apply (rule exI [of _ ?rd])
    apply (intro conjI)
             apply (rule select_to_array_flatten)
            apply (rule refl)
           apply (rule 2)
          apply (rule 1)
         apply (rule 3)
        apply (rule 4)
       apply (rule 5)
      apply (rule 6)
     apply (rule 7)
    apply (rule 8)
    done
qed

theorem parse_counts_order_and_empty_witness:
  "\<exists>rd. select_to_array fruit = Inr rd \<and> length rd = 7 \<and>
     length (filter (\<lambda>it. \<not> group it \<and> \<not> empty it) rd) = 4 \<and>
     map text' (filter (\<lambda>it. \<not> group it \<and> \<not> empty it) rd) =
       [''Apple'', ''Lemon'', ''Lime'', ''avocado''] \<and>
     map empty (filter (\<lambda>it. \<not> group it) rd) = [True, False, False, True, False, False] \<and>
     well_formed rd \<and> empty (rd ! 0) \<and> empty (rd ! 4) \<and>
     \<not> include_option_in_results plain_widget (rd ! 4) \<and>
     result_add_option plain_widget (rd ! 4) = None \<and>
     (\<exists>s'. winnow_results (plain_widget\<lparr> results_data := rd \<rparr>) = Inr s' \<and>
        \<not> search_match (results_data s' ! 0) \<and> \<not> search_match (results_data s' ! 4) \<and>
        map li_index (search_results s') = [Some 1, None, Some 3, Some 5, Some 6])"
proof -
  let ?rd = "flatten 0 0 fruit"
  let ?t = "plain_widget\<lparr> results_data := ?rd \<rparr>"
  have h1: "length ?rd = 7" "empty (?rd ! 0)" "empty (?rd ! 4)" by code_simp+
  have h2: "map opt_text (filter (\<lambda>el. opt_text el \<noteq> []) (concat (map el_options fruit))) =
      [''Apple'', ''Lemon'', ''Lime'', ''avocado'']" by code_simp
  have h3: "map (\<lambda>el. opt_text el = []) (concat (map el_options fruit)) =
      [True, False, False, True, False, False]" by code_simp
  have h4: "map li_index (search_results (after (winnow_results ?t))) =
      [Some 1, None, Some 3, Some 5, Some 6]" by code_simp
  from parse_counts_order_and_empty [of fruit plain_widget "get_search_regex plain_widget []"
      "get_highlight_regex plain_widget []" "[]" 0]
  obtain s' where
    p: "select_to_array fruit = Inr ?rd"
      "map text' (filter (\<lambda>it. \<not> group it \<and> \<not> empty it) ?rd) =
         map opt_text (filter (\<lambda>el. opt_text el \<noteq> []) (concat (map el_options fruit)))"
      "map empty (filter (\<lambda>it. \<not> group it) ?rd) =
         map (\<lambda>el. opt_text el = []) (concat (map el_options fruit))"
      "well_formed ?rd"
    and q: "\<forall>j < length ?rd. empty (?rd ! j) \<longrightarrow>
        \<not> include_option_in_results plain_widget (?rd ! j) \<and>
        result_add_option plain_widget (?rd ! j) = None"
    and r: "winnow_results ?t = Inr s'"
      "\<forall>j < length ?rd. empty (?rd ! j) \<longrightarrow> \<not> search_match (results_data s' ! j)"
    by blast
  have t: "map text' (filter (\<lambda>it. \<not> group it \<and> \<not> empty it) ?rd) =
      [''Apple'', ''Lemon'', ''Lime'', ''avocado'']"
    using p(2) h2 by simp
  have c: "length (filter (\<lambda>it. \<not> group it \<and> \<not> empty it) ?rd) = 4"
    using arg_cong [OF t, of length] by simp
  have m: "map empty (filter (\<lambda>it. \<not> group it) ?rd) = [True, False, False, True, False, False]"
    using p(3) h3 by simp
  have x: "\<not> include_option_in_results plain_widget (?rd ! 4)"
    "result_add_option plain_widget (?rd ! 4) = None"
    using q h1 by simp_all
  have y: "\<not> search_match (results_data s' ! 0)" "\<not> search_match (results_data s' ! 4)"
    using r(2) h1 by simp_all
  have z: "map li_index (search_results s') = [Some 1, None, Some 3, Some 5, Some 6]"
    using h4 r(1) by (simp add: after_def)
  show ?thesis
    apply (rule exI [of _ ?rd])
    apply (intro conjI)
             apply (rule p(1))
            apply (rule h1(1))
           apply (rule c)
          apply (rule t)
         apply (rule m)
        apply (rule p(4))
       apply (rule h1(2))
      apply (rule h1(3))
     apply (rule x(1))
    apply (rule x(2))
    apply (rule exI [of _ s'])
    apply (intro conjI)
       apply (rule r(1))
      apply (rule y(1))
     apply (rule y(2))
    apply (rule z)
    done
qed

section \<open>The filter pass is idempotent\<close>

lemma include_upd [simp]:
  "include_option_in_results s (it\<lparr> search_match := m \<rparr>) = include_option_in_results s it"
  "include_option_in_results s (it\<lparr> group_match := gm \<rparr>) = include_option_in_results s it"
  "include_option_in_results s (it\<lparr> active_options := ao \<rparr>) = include_option_in_results s it"
  "include_option_in_results s (it\<lparr> search_text := t \<rparr>) = include_option_in_results s it"
  by (simp_all add: include_option_in_results_def)

lemma filter_fields_order [simp]:
  "it\<lparr> group_match := gm, search_match := m \<rparr> = it\<lparr> search_match := m, group_match := gm \<rparr>"
  "it\<lparr> active_options := ao, search_match := m \<rparr> = it\<lparr> search_match := m, active_options := ao \<rparr>"
  "it\<lparr> search_text := t, search_match := m \<rparr> = it\<lparr> search_match := m, search_text := t \<rparr>"
  "it\<lparr> active_options := ao, group_match := gm \<rparr> = it\<lparr> group_match := gm, active_options := ao \<rparr>"
  "it\<lparr> search_text := t, group_match := gm \<rparr> = it\<lparr> group_match := gm, search_text := t \<rparr>"
  "it\<lparr> search_text := t, active_options := ao \<rparr> = it\<lparr> active_options := ao, search_text := t \<rparr>"
  for it :: item
  by (cases it; simp)+

lemma winnow_item_not_included:
  assumes "j < length A" and "\<not> include_option_in_results s (A ! j)"
  shows "winnow_item s d b g j (A, e) = Inr (A[j := item_pass s d b g (A ! j) G], item_count s d (A ! j) G e)"
  using assms by (simp add: winnow_item_def Let_def item_pass_def item_count_def)

lemma winnow_item_group:
  assumes "j < length A" and "include_option_in_results s (A ! j)" and "group (A ! j)"
    and "group_array_index (A ! j) = None"
  shows "winnow_item s d b g j (A, e) = Inr (A[j := item_pass s d b g (A ! j) None], item_count s d (A ! j) None e)"
  using assms
  by (simp add: winnow_item_def winnow_match_def winnow_count_def group_of_def Let_def
        item_pass_def item_count_def entry_text_def)

lemma winnow_item_single:
  assumes "j < length A" and "include_option_in_results s (A ! j)" and "\<not> group (A ! j)"
    and "group_array_index (A ! j) = None"
  shows "winnow_item s d b g j (A, e) = Inr (A[j := item_pass s d b g (A ! j) None], item_count s d (A ! j) None e)"
  using assms
  by (simp add: winnow_item_def winnow_match_def winnow_count_def group_of_def Let_def
        item_pass_def item_count_def entry_text_def)

lemma winnow_match_child:
  assumes "j < length R" and "gi < length R" and "gi \<noteq> j"
    and "group_array_index (R ! j) = Some gi" and "\<not> group (R ! j)"
  shows "winnow_match s d b g j (Some gi) (R, e1) =
     (if search_string_match s (search_text (R ! j)) d
      then Inr (R[j := (R ! j)\<lparr> search_match := True,
                     search_text := (if g \<noteq> [] then highlight_text (search_text (R ! j)) b g
                                     else search_text (R ! j)) \<rparr>,
                 gi := (R ! gi)\<lparr> group_match := True \<rparr>], e1 + 1)
      else Inr (R[j := (R ! j)\<lparr> search_match := search_match (R ! gi) \<rparr>], e1))"
proof (cases "search_string_match s (search_text (R ! j)) d")
  case True
  then show ?thesis
    using assms by (cases "g = []") (simp_all add: winnow_match_def Let_def)
next
  case False
  then show ?thesis
    using assms by (cases "search_match (R ! gi)") (simp_all add: winnow_match_def Let_def)
qed

lemma winnow_item_child:
  assumes "j < length A" and "include_option_in_results s (A ! j)" and "\<not> group (A ! j)"
    and "group_array_index (A ! j) = Some gi" and "gi < length A" and "gi \<noteq> j"
  shows "winnow_item s d b g j (A, e) =
     Inr (A[gi := group_pass s d (A ! j) (A ! gi), j := item_pass s d b g (A ! j) (Some (A ! gi))],
          item_count s d (A ! j) (Some (A ! gi)) e)"
proof -
  let ?rd1 = "A[j := (A ! j)\<lparr> search_match := False \<rparr>]"
  have f: "group_of ?rd1 j = Some gi"
    using assms by (simp add: group_of_def)
  let ?G1 = "(A ! gi)\<lparr> active_options := map_option Suc (active_options (A ! gi)) \<rparr>"
  let ?e1 = "if active_options (A ! gi) = Some 0 \<and> search_match (A ! gi) then e + 1 else e"
  let ?X = "(A ! j)\<lparr> search_match := False, search_text := html (A ! j) \<rparr>"
  have c: "winnow_count (Some gi) (?rd1, e) = (?rd1[gi := ?G1], ?e1)"
    using assms by (simp add: winnow_count_def Let_def)
  define R where "R = A[j := ?X, gi := ?G1]"
  have r4: "(?rd1[gi := ?G1])[j := ((?rd1[gi := ?G1]) ! j)\<lparr> search_text := html ((?rd1[gi := ?G1]) ! j) \<rparr>] = R"
    using assms by (simp add: R_def list_eq_iff_nth_eq nth_list_update)
  have R: "j < length R" "gi < length R" "R ! j = ?X" "R ! gi = ?G1"
    using assms by (simp_all add: R_def)
  have Rg: "group_array_index (R ! j) = Some gi" "\<not> group (R ! j)"
    using assms R(3) by simp_all
  have i: "winnow_item s d b g j (A, e) = winnow_match s d b g j (Some gi) (R, ?e1)"
    using assms f c r4 Rg(2) by (simp add: winnow_item_def Let_def)
  note m = winnow_match_child [OF R(1,2) assms(6) Rg, of s d b g ?e1]
  let ?T = "A[gi := group_pass s d (A ! j) (A ! gi), j := item_pass s d b g (A ! j) (Some (A ! gi))]"
  have T: "length ?T = length A" "?T ! j = item_pass s d b g (A ! j) (Some (A ! gi))"
    "?T ! gi = group_pass s d (A ! j) (A ! gi)"
    using assms by simp_all
  have To: "?T ! k = A ! k" if "k \<noteq> j" "k \<noteq> gi" for k
    using that by simp
  have Ro: "R ! k = A ! k" if "k \<noteq> j" "k \<noteq> gi" for k
    using that by (simp add: R_def)
  have st: "search_text (R ! j) = html (A ! j)" by (simp add: R(3))
  show ?thesis
  proof (cases "search_string_match s (html (A ! j)) d")
    case True
    let ?J = "(R ! j)\<lparr> search_match := True,
                     search_text := (if g \<noteq> [] then highlight_text (search_text (R ! j)) b g
                                     else search_text (R ! j)) \<rparr>"
    let ?L = "R[j := ?J, gi := (R ! gi)\<lparr> group_match := True \<rparr>]"
    have L: "length ?L = length A" "?L ! j = ?J" "?L ! gi = (R ! gi)\<lparr> group_match := True \<rparr>"
      using assms R(1,2) by (simp_all add: R_def)
    have Lo: "?L ! k = A ! k" if "k \<noteq> j" "k \<noteq> gi" for k
      using that Ro [OF that] by simp
    have j': "?J = item_pass s d b g (A ! j) (Some (A ! gi))"
      using assms(2,3) True by (simp add: R(3) item_pass_def entry_text_def)
    have g': "(R ! gi)\<lparr> group_match := True \<rparr> = group_pass s d (A ! j) (A ! gi)"
      using assms(3) True by (simp add: R(4) group_pass_def entry_text_def)
    have "?L = ?T"
    proof (rule nth_equalityI)
      show "length ?L = length ?T" using L(1) T(1) by simp
    next
      fix k assume "k < length ?L"
      show "?L ! k = ?T ! k"
      proof (cases "k = j")
        case True
        then show ?thesis using L(2) T(2) j' by simp
      next
        case kj: False
        show ?thesis
        proof (cases "k = gi")
          case True
          then show ?thesis using L(3) T(3) g' by simp
        next
          case False
          then show ?thesis using Lo [OF kj False] To [OF kj False] by simp
        qed
      qed
    qed
    moreover have "?e1 + 1 = item_count s d (A ! j) (Some (A ! gi)) e"
      using assms True by (simp add: item_count_def entry_text_def)
    moreover have "winnow_item s d b g j (A, e) = Inr (?L, ?e1 + 1)"
      using i m True st by simp
    ultimately show ?thesis by simp
  next
    case False
    let ?J = "(R ! j)\<lparr> search_match := search_match (R ! gi) \<rparr>"
    let ?L = "R[j := ?J]"
    have L: "length ?L = length A" "?L ! j = ?J" "?L ! gi = R ! gi"
      using assms R(1,2) by (simp_all add: R_def)
    have Lo: "?L ! k = A ! k" if "k \<noteq> j" "k \<noteq> gi" for k
      using that Ro [OF that] by simp
    have j': "?J = item_pass s d b g (A ! j) (Some (A ! gi))"
      using assms(2,3) False by (simp add: R(3,4) item_pass_def entry_text_def)
    have g': "R ! gi = group_pass s d (A ! j) (A ! gi)"
      using assms(3) False by (simp add: R(4) group_pass_def entry_text_def)
    have "?L = ?T"
    proof (rule nth_equalityI)
      show "length ?L = length ?T" using L(1) T(1) by simp
    next
      fix k assume "k < length ?L"
      show "?L ! k = ?T ! k"
      proof (cases "k = j")
        case True
        then show ?thesis using L(2) T(2) j' by simp
      next
        case kj: False
        show ?thesis
        proof (cases "k = gi")
          case True
          then show ?thesis using L(3) T(3) g' by simp
        next
          case False
          then show ?thesis using Lo [OF kj False] To [OF kj False] by simp
        qed
      qed
    qed
    moreover have "?e1 = item_count s d (A ! j) (Some (A ! gi)) e"
      using assms False by (simp add: item_count_def entry_text_def)
    moreover have "winnow_item s d b g j (A, e) = Inr (?L, ?e1)"
      using i m False st by simp
    ultimately show ?thesis by simp
  qed
qed

lemma stat_nrm [simp]: "stat (nrm s it) = stat it"
  by (simp add: nrm_def stat_def)

lemma nrm_fields:
  assumes "nrm s a = nrm s b"
  shows "stat a = stat b"
  using arg_cong [OF assms, of stat] by simp

lemma include_stat: "include_option_in_results s (stat it) = include_option_in_results s it"
  by (simp add: stat_def)

lemma include_nrm [simp]: "include_option_in_results s (nrm s it) = include_option_in_results s it"
  using stat_fields(13) [OF stat_nrm [of s it], of s] .

lemma group_nrm [simp]: "group (nrm s it) = group it"
  using stat_fields(1) [OF stat_nrm [of s it]] .

lemma entry_text_nrm [simp]: "entry_text (nrm s it) = entry_text it"
  using stat_fields(1,7,8) [OF stat_nrm [of s it]] by (simp add: entry_text_def)

lemma nrm_idem [simp]: "nrm s (nrm s it) = nrm s it"
  by (simp add: nrm_def stat_def include_stat)

lemma item_pass_nrm: "item_pass s d b g (nrm s it) G = item_pass s d b g it G"
proof (cases "include_option_in_results s it")
  case False
  then show ?thesis by (simp add: item_pass_def nrm_def)
next
  case True
  show ?thesis
  proof (cases "group it")
    case g: True
    have "entry_text (stat it) = entry_text it" by (simp add: entry_text_def stat_def)
    then show ?thesis
      using True g by (simp add: item_pass_def nrm_def include_stat Let_def) (simp add: stat_def)
  next
    case g: False
    have "entry_text (it\<lparr> search_match := False, search_text := [] \<rparr>) = entry_text it"
      by (simp add: entry_text_def)
    then show ?thesis
      using True g by (simp add: item_pass_def nrm_def Let_def)
  qed
qed

lemma item_count_nrm: "item_count s d (nrm s it) G e = item_count s d it G e"
  by (simp add: item_count_def)

lemma group_pass_nrm: "group_pass s d (nrm s it) G = group_pass s d it G"
  by (simp add: group_pass_def)

lemma nrm_item_pass: "nrm s (item_pass s d b g it G) = nrm s it"
proof (cases "include_option_in_results s it")
  case False
  then show ?thesis by (simp add: item_pass_def nrm_def)
next
  case True
  show ?thesis
  proof (cases "group it")
    case g: True
    then show ?thesis
      using True by (simp add: item_pass_def nrm_def Let_def stat_def)
  next
    case g: False
    then show ?thesis
      using True by (simp add: item_pass_def nrm_def Let_def)
  qed
qed

lemma nrm_group_pass:
  "group G \<Longrightarrow> include_option_in_results s G \<Longrightarrow> nrm s (group_pass s d it G) = nrm s G"
  by (simp add: group_pass_def nrm_def stat_def)

lemma include_option_in_results_iff:
  "include_option_in_results s a \<longleftrightarrow>
     \<not> (is_multiple s \<and> \<not> display_selected_options s \<and> selected a) \<and>
     \<not> (\<not> display_disabled_options s \<and> disabled a) \<and> \<not> empty a"
  by (simp add: include_option_in_results_def)

lemma well_formed_local:
  assumes "well_formed A" and "j < length A"
  shows "group (A ! j) \<longrightarrow> group_array_index (A ! j) = None"
    and "\<forall>gi. group_array_index (A ! j) = Some gi \<longrightarrow>
           gi < length A \<and> gi < j \<and> group (A ! gi) \<and>
           (include_option_in_results s (A ! j) \<longrightarrow> include_option_in_results s (A ! gi))"
proof -
  from assms have w: "wf_at A j" by (simp only: well_formed_wf_at)
  then show "group (A ! j) \<longrightarrow> group_array_index (A ! j) = None"
    unfolding wf_at_def by blast
  show "\<forall>gi. group_array_index (A ! j) = Some gi \<longrightarrow>
           gi < length A \<and> gi < j \<and> group (A ! gi) \<and>
           (include_option_in_results s (A ! j) \<longrightarrow> include_option_in_results s (A ! gi))"
  proof (intro allI impI)
    fix gi assume g: "group_array_index (A ! j) = Some gi"
    from w g have 1: "gi < j \<and> group (A ! gi) \<and> (disabled (A ! gi) \<longrightarrow> disabled (A ! j))"
      unfolding wf_at_def by blast
    then have 2: "gi < length A" using assms(2) by simp
    with assms(1) have "wf_at A gi" by (simp only: well_formed_wf_at)
    then have 3: "\<not> selected (A ! gi) \<and> \<not> empty (A ! gi)"
      using 1 unfolding wf_at_def by blast
    have "include_option_in_results s (A ! j) \<longrightarrow> include_option_in_results s (A ! gi)"
      using 1 3 unfolding include_option_in_results_iff by blast
    then show "gi < length A \<and> gi < j \<and> group (A ! gi) \<and>
           (include_option_in_results s (A ! j) \<longrightarrow> include_option_in_results s (A ! gi))"
      using 1 2 by blast
  qed
qed

lemma step_result_simple:
  assumes "j < length A"
    and "winnow_item s d b g j (A, e) = Inr (A[j := item_pass s d b g (A ! j) G], item_count s d (A ! j) G e)"
    and "G = map_option ((!) A) (group_array_index (A ! j))"
    and "\<not> include_option_in_results s (A ! j) \<or> group_array_index (A ! j) = None"
  shows "step_result s d b g j A e (A[j := item_pass s d b g (A ! j) G])"
proof -
  have "A[j := item_pass s d b g (A ! j) G] ! i =
        (if include_option_in_results s (A ! j) \<and> group_array_index (A ! j) = Some i
         then group_pass s d (A ! j) (A ! i) else A ! i)" if "i \<noteq> j" for i
  proof -
    have "\<not> (include_option_in_results s (A ! j) \<and> group_array_index (A ! j) = Some i)"
      using assms(4) by auto
    then show ?thesis using that by auto
  qed
  then show ?thesis
    unfolding step_result_def assms(3) [symmetric]
    using assms(1,2) by simp
qed

lemma step_result_child:
  assumes "j < length A" and "include_option_in_results s (A ! j)" and "\<not> group (A ! j)"
    and "group_array_index (A ! j) = Some gi" and "gi < length A" and "gi \<noteq> j"
  shows "step_result s d b g j A e
           (A[gi := group_pass s d (A ! j) (A ! gi), j := item_pass s d b g (A ! j) (Some (A ! gi))])"
proof -
  let ?A' = "A[gi := group_pass s d (A ! j) (A ! gi), j := item_pass s d b g (A ! j) (Some (A ! gi))]"
  have G: "map_option ((!) A) (group_array_index (A ! j)) = Some (A ! gi)"
    by (simp add: assms(4))
  have w: "winnow_item s d b g j (A, e) = Inr (?A', item_count s d (A ! j) (Some (A ! gi)) e)"
    by (rule winnow_item_child [OF assms])
  have l: "length ?A' = length A" by simp
  have nj: "?A' ! j = item_pass s d b g (A ! j) (Some (A ! gi))"
    using assms(1) by simp
  have ni: "?A' ! i = (if include_option_in_results s (A ! j) \<and> Some gi = Some i
                      then group_pass s d (A ! j) (A ! i) else A ! i)" if ij: "i \<noteq> j" for i
  proof (cases "i = gi")
    case True
    have "?A' ! gi = group_pass s d (A ! j) (A ! gi)"
      using assms(5,6) by simp
    then show ?thesis using True assms(2) by simp
  next
    case False
    have "?A' ! i = A ! i" using ij False by simp
    then show ?thesis using False by auto
  qed
  show ?thesis
    unfolding step_result_def assms(4) option.map
    by (intro conjI allI impI) (rule w, rule l, rule nj, erule ni)
qed

lemma winnow_item_step:
  assumes "j < length A" and "group (A ! j) \<longrightarrow> group_array_index (A ! j) = None"
    and "\<forall>gi. group_array_index (A ! j) = Some gi \<longrightarrow> gi < length A \<and> gi \<noteq> j"
  shows "\<exists>A'. step_result s d b g j A e A'"
proof (cases "include_option_in_results s (A ! j)")
  case False
  have "step_result s d b g j A e
      (A[j := item_pass s d b g (A ! j) (map_option ((!) A) (group_array_index (A ! j)))])"
    using assms(1) winnow_item_not_included [OF assms(1) False] refl
  proof (rule step_result_simple)
    show "\<not> include_option_in_results s (A ! j) \<or> group_array_index (A ! j) = None"
      using False by blast
  qed
  then show ?thesis by (rule exI)
next
  case True
  show ?thesis
  proof (cases "group_array_index (A ! j)")
    case None
    have w: "winnow_item s d b g j (A, e) =
        Inr (A[j := item_pass s d b g (A ! j) None], item_count s d (A ! j) None e)"
    proof (cases "group (A ! j)")
      case g: True
      show ?thesis by (rule winnow_item_group [OF assms(1) True g None])
    next
      case g: False
      show ?thesis by (rule winnow_item_single [OF assms(1) True g None])
    qed
    have "step_result s d b g j A e (A[j := item_pass s d b g (A ! j) None])"
      using assms(1) w
    proof (rule step_result_simple)
      show "None = map_option ((!) A) (group_array_index (A ! j))" by (simp add: None)
      show "\<not> include_option_in_results s (A ! j) \<or> group_array_index (A ! j) = None"
        using None by blast
    qed
    then show ?thesis by (rule exI)
  next
    case (Some gi)
    have gi: "gi < length A" "gi \<noteq> j" using assms(3) Some by blast+
    have ng: "\<not> group (A ! j)" using assms(2) Some by auto
    have "step_result s d b g j A e
           (A[gi := group_pass s d (A ! j) (A ! gi), j := item_pass s d b g (A ! j) (Some (A ! gi))])"
      by (rule step_result_child [OF assms(1) True ng Some gi])
    then show ?thesis by (rule exI)
  qed
qed

lemma step_result_nrm:
  assumes "step_result s d b g j A e A'"
    and "\<forall>gi. group_array_index (A ! j) = Some gi \<longrightarrow>
           group (A ! gi) \<and> (include_option_in_results s (A ! j) \<longrightarrow> include_option_in_results s (A ! gi))"
  shows "nrm s (A' ! i) = nrm s (A ! i)"
proof (cases "i = j")
  case True
  from assms(1) have "A' ! j = item_pass s d b g (A ! j) (map_option ((!) A) (group_array_index (A ! j)))"
    unfolding step_result_def by blast
  then show ?thesis using True by (simp add: nrm_item_pass)
next
  case False
  from assms(1) False have i: "A' ! i =
      (if include_option_in_results s (A ! j) \<and> group_array_index (A ! j) = Some i
       then group_pass s d (A ! j) (A ! i) else A ! i)"
    unfolding step_result_def by blast
  show ?thesis
  proof (cases "include_option_in_results s (A ! j) \<and> group_array_index (A ! j) = Some i")
    case True
    then have "group (A ! i)" "include_option_in_results s (A ! i)"
      using assms(2) by blast+
    then have "nrm s (group_pass s d (A ! j) (A ! i)) = nrm s (A ! i)"
      by (rule nrm_group_pass)
    then show ?thesis using i True by simp
  next
    case False
    then show ?thesis using i by auto
  qed
qed

lemma step_result_same:
  assumes A: "step_result s d b g j A e A'" and B: "step_result s d b g j B e B'"
    and n: "nrm s (A ! j) = nrm s (B ! j)"
    and gr: "\<forall>gi. group_array_index (A ! j) = Some gi \<longrightarrow> A ! gi = B ! gi"
  shows "winnow_item s d b g j (B, e) = Inr (B', snd (out (winnow_item s d b g j (A, e))))"
    and "A' ! j = B' ! j" and "i \<noteq> j \<Longrightarrow> A ! i = B ! i \<Longrightarrow> A' ! i = B' ! i"
proof -
  have st: "stat (A ! j) = stat (B ! j)" using n by (rule nrm_fields)
  have gai: "group_array_index (B ! j) = group_array_index (A ! j)"
    using stat_fields(5) [OF st] by simp
  have inc: "include_option_in_results s (B ! j) = include_option_in_results s (A ! j)"
    using stat_fields(13) [OF st, of s] by simp
  let ?GA = "map_option ((!) A) (group_array_index (A ! j))"
  let ?GB = "map_option ((!) B) (group_array_index (B ! j))"
  have G: "?GB = ?GA"
    using gr by (cases "group_array_index (A ! j)") (simp_all add: gai)
  have ip: "item_pass s d b g (B ! j) ?GB = item_pass s d b g (A ! j) ?GA"
    using item_pass_nrm [of s d b g "A ! j" ?GA] item_pass_nrm [of s d b g "B ! j" ?GA]
    by (simp only: G n)
  have ic: "item_count s d (B ! j) ?GB e = item_count s d (A ! j) ?GA e"
    using item_count_nrm [of s d "A ! j" ?GA e] item_count_nrm [of s d "B ! j" ?GA e]
    by (simp only: G n)
  have gp: "group_pass s d (B ! j) G = group_pass s d (A ! j) G" for G
    using group_pass_nrm [of s d "A ! j" G] group_pass_nrm [of s d "B ! j" G]
    by (simp only: n)
  from A have wa: "winnow_item s d b g j (A, e) = Inr (A', item_count s d (A ! j) ?GA e)"
    and ja: "A' ! j = item_pass s d b g (A ! j) ?GA"
    unfolding step_result_def by blast+
  from B have wb: "winnow_item s d b g j (B, e) = Inr (B', item_count s d (B ! j) ?GB e)"
    and jb: "B' ! j = item_pass s d b g (B ! j) ?GB"
    unfolding step_result_def by blast+
  show "winnow_item s d b g j (B, e) = Inr (B', snd (out (winnow_item s d b g j (A, e))))"
    using wa wb ic by simp
  show "A' ! j = B' ! j" using ja jb ip by simp
  show "A' ! i = B' ! i" if ij: "i \<noteq> j" and eq: "A ! i = B ! i"
  proof -
    from A ij have "A' ! i =
      (if include_option_in_results s (A ! j) \<and> group_array_index (A ! j) = Some i
       then group_pass s d (A ! j) (A ! i) else A ! i)"
      unfolding step_result_def by blast
    moreover from B ij have "B' ! i =
      (if include_option_in_results s (B ! j) \<and> group_array_index (B ! j) = Some i
       then group_pass s d (B ! j) (B ! i) else B ! i)"
      unfolding step_result_def by blast
    ultimately show ?thesis by (simp only: gai inc gp eq)
  qed
qed

lemma well_formed_step:
  assumes wf: "well_formed A" and j: "j < length A"
  shows "\<exists>A'. step_result s d b g j A e A' \<and> length A' = length A \<and>
           (\<forall>i. nrm s (A' ! i) = nrm s (A ! i)) \<and> well_formed A'"
proof -
  note l1 = well_formed_local(1) [OF wf j]
  note l2 = well_formed_local(2) [OF wf j, of s]
  have c: "\<forall>gi. group_array_index (A ! j) = Some gi \<longrightarrow> gi < length A \<and> gi \<noteq> j"
    using l2 by auto
  from winnow_item_step [OF j l1 c, of s d b g e]
  obtain A' where A': "step_result s d b g j A e A'" by blast
  then have len: "length A' = length A" unfolding step_result_def by blast
  have c2: "\<forall>gi. group_array_index (A ! j) = Some gi \<longrightarrow>
       group (A ! gi) \<and> (include_option_in_results s (A ! j) \<longrightarrow> include_option_in_results s (A ! gi))"
    using l2 by blast
  have n: "nrm s (A' ! i) = nrm s (A ! i)" for i
    by (rule step_result_nrm [OF A' c2])
  have st: "stat (A' ! i) = stat (A ! i)" for i
    using n [of i] by (rule nrm_fields)
  have "well_formed A'" by (rule well_formed_stat [OF len st wf])
  then show ?thesis using A' len n by blast
qed

lemma winnow_loop_nrm:
  assumes "well_formed A" and "\<forall>j \<in> set js. j < length A"
    and "winnow_loop s d b g js (A, e) = Inr (A', e')"
  shows "length A' = length A \<and> (\<forall>i. nrm s (A' ! i) = nrm s (A ! i))"
  using assms
proof (induction js arbitrary: A e)
  case Nil
  then show ?case by simp
next
  case (Cons j js)
  have j: "j < length A" using Cons.prems(2) by simp
  from well_formed_step [OF Cons.prems(1) j, of s d b g e]
  obtain A1 where A1: "step_result s d b g j A e A1" "length A1 = length A"
    "\<And>i. nrm s (A1 ! i) = nrm s (A ! i)" "well_formed A1"
    by blast
  from A1(1) obtain e1 where w: "winnow_item s d b g j (A, e) = Inr (A1, e1)"
    unfolding step_result_def by blast
  from Cons.prems(3) w have l: "winnow_loop s d b g js (A1, e1) = Inr (A', e')" by simp
  have "\<forall>j \<in> set js. j < length A1" using Cons.prems(2) A1(2) by simp
  from Cons.IH [OF A1(4) this l] A1(2,3) show ?case by simp
qed

lemma winnow_loop_same:
  assumes "well_formed A" and "length B = length A" and "\<forall>i. nrm s (A ! i) = nrm s (B ! i)"
    and "sorted_wrt (<) js" and "\<forall>j \<in> set js. j < length A"
    and "\<forall>i < length A. i \<notin> set js \<longrightarrow> A ! i = B ! i"
  shows "winnow_loop s d b g js (A, e) = winnow_loop s d b g js (B, e)"
  using assms
proof (induction js arbitrary: A B e)
  case Nil
  have "A = B"
  proof (rule nth_equalityI)
    show "length A = length B" using Nil.prems(2) by simp
  next
    fix i assume "i < length A"
    then show "A ! i = B ! i" using Nil.prems(6) by simp
  qed
  then show ?case by simp
next
  case (Cons j js)
  have j: "j < length A" and jB: "j < length B" using Cons.prems(2,5) by simp_all
  have stB: "stat (B ! i) = stat (A ! i)" for i
    using Cons.prems(3) nrm_fields [of s "B ! i" "A ! i"] by simp
  have wfB: "well_formed B" by (rule well_formed_stat [OF Cons.prems(2) stB Cons.prems(1)])
  from well_formed_step [OF Cons.prems(1) j, of s d b g e]
  obtain A1 where A1: "step_result s d b g j A e A1" "length A1 = length A"
    "\<And>i. nrm s (A1 ! i) = nrm s (A ! i)" "well_formed A1"
    by blast
  from well_formed_step [OF wfB jB, of s d b g e]
  obtain B1 where B1: "step_result s d b g j B e B1" "length B1 = length B"
    "\<And>i. nrm s (B1 ! i) = nrm s (B ! i)" "well_formed B1"
    by blast
  from A1(1) obtain e1 where wa: "winnow_item s d b g j (A, e) = Inr (A1, e1)"
    unfolding step_result_def by blast
  have later: "j < x" if "x \<in> set js" for x
    using Cons.prems(4) that by simp
  have gr: "\<forall>gi. group_array_index (A ! j) = Some gi \<longrightarrow> A ! gi = B ! gi"
  proof (intro allI impI)
    fix gi assume "group_array_index (A ! j) = Some gi"
    with well_formed_local(2) [OF Cons.prems(1) j, of s]
    have g: "gi < length A" "gi < j" by blast+
    have "gi \<notin> set js" using later [of gi] g(2) by auto
    then have "gi \<notin> set (j # js)" using g(2) by simp
    then show "A ! gi = B ! gi" using Cons.prems(6) g(1) by blast
  qed
  have nj: "nrm s (A ! j) = nrm s (B ! j)" using Cons.prems(3) by blast
  note same = step_result_same [OF A1(1) B1(1) nj gr]
  have wb: "winnow_item s d b g j (B, e) = Inr (B1, e1)"
    using same(1) wa by simp
  have rel: "\<forall>i. nrm s (A1 ! i) = nrm s (B1 ! i)"
    using A1(3) B1(3) Cons.prems(3) by simp
  have agree: "\<forall>i < length A1. i \<notin> set js \<longrightarrow> A1 ! i = B1 ! i"
  proof (intro allI impI)
    fix i assume i: "i < length A1" and n: "i \<notin> set js"
    show "A1 ! i = B1 ! i"
    proof (cases "i = j")
      case True
      then show ?thesis using same(2) by simp
    next
      case False
      then have "i \<notin> set (j # js)" using n by simp
      then have "A ! i = B ! i" using Cons.prems(6) i A1(2) by simp
      with False show ?thesis by (rule same(3))
    qed
  qed
  have "winnow_loop s d b g js (A1, e1) = winnow_loop s d b g js (B1, e1)"
  proof (rule Cons.IH [OF A1(4) _ rel _ _ agree])
    show "length B1 = length A1" using A1(2) B1(2) Cons.prems(2) by simp
    show "sorted_wrt (<) js" using Cons.prems(4) by simp
    show "\<forall>j \<in> set js. j < length A1" using Cons.prems(5) A1(2) by simp
  qed
  then show ?case using wa wb by simp
qed

lemma winnow_loop_twice:
  assumes "well_formed A" and "winnow_loop s d b g [0 ..< length A] (A, 0) = Inr (A', e')"
  shows "winnow_loop s d b g [0 ..< length A'] (A', 0) = Inr (A', e')"
proof -
  have in_range: "\<forall>j \<in> set [0 ..< length A]. j < length A" by (simp del: upt_Suc)
  from winnow_loop_nrm [OF assms(1) in_range assms(2)]
  have len: "length A' = length A" and n: "\<forall>i. nrm s (A ! i) = nrm s (A' ! i)" by simp_all
  have "winnow_loop s d b g [0 ..< length A] (A, 0) = winnow_loop s d b g [0 ..< length A] (A', 0)"
  proof (rule winnow_loop_same [OF assms(1) len n _ in_range])
    show "sorted_wrt (<) [0 ..< length A]" by (rule sorted_wrt_upt)
    show "\<forall>i < length A. i \<notin> set [0 ..< length A] \<longrightarrow> A ! i = A' ! i" by (simp del: upt_Suc)
  qed
  then show ?thesis using assms(2) len by simp
qed

lemma view_cong:
  assumes "same_config s t" and "search_field t = search_field s"
  shows "view_highlight t rd e = view_highlight s rd e" and "view_list t rd e = view_list s rd e"
proof -
  have g: "get_search_text t = get_search_text s"
    using assms(2) by (simp add: get_search_text_def)
  have m: "is_multiple t = is_multiple s" using assms(1) by (simp add: same_config_def)
  have b: "results_option_build_loop t rd 0 = results_option_build_loop s rd 0"
    by (rule results_option_build_loop_cong [OF assms(1)])
  have n: "get_no_results_html t = get_no_results_html s"
    by (rule same_config_no_results_html [OF assms(1)])
  show h: "view_highlight t rd e = view_highlight s rd e"
    by (simp only: view_highlight_def g m b)
  show "view_list t rd e = view_list s rd e"
    by (simp only: view_list_def g h b n)
qed

lemma winnow_pass_twice:
  assumes "well_formed (results_data s)" and "winnow_pass s = Inr (rd, e)"
    and "same_config s t" and "search_field t = search_field s" and "results_data t = rd"
  shows "winnow_pass t = Inr (rd, e)"
proof -
  let ?g = "get_search_text s"
  let ?d = "get_search_regex s (escape_regex ?g)"
  let ?b = "get_highlight_regex s (escape_regex ?g)"
  have 1: "winnow_loop s ?d ?b ?g [0 ..< length (results_data s)] (results_data s, 0) = Inr (rd, e)"
    using assms(2) by (simp only: winnow_pass_def)
  have 2: "winnow_loop s ?d ?b ?g [0 ..< length rd] (rd, 0) = Inr (rd, e)"
    by (rule winnow_loop_twice [OF assms(1) 1])
  have g: "get_search_text t = ?g"
    using assms(4) by (simp add: get_search_text_def)
  have "winnow_pass t = winnow_loop s ?d ?b ?g [0 ..< length rd] (rd, 0)"
    by (simp only: winnow_pass_def g assms(5) same_config_regex [OF assms(3)]
          winnow_loop_cong [OF assms(3)])
  then show ?thesis using 2 by simp
qed

text \<open>
  Claim C7. Take a widget whose flat list is well formed, as every list the parser returns
  is, and any search text \<open>q\<close>. The filter returns, and run again on the widget it has
  left, with the same search text and the flat list untouched in between, it returns again
  and leaves the same flat list (the same match flags and the same annotated search texts),
  the same rendered entries and the same highlighted entry. The two widgets differ at most
  in the notifications sent: a search without results is announced each time. The flat list
  the filter leaves is well formed again.
\<close>

theorem winnow_results_idempotent:
  assumes "well_formed (results_data s)"
  shows "\<exists>s1 s2. winnow_results (s\<lparr> search_field := q \<rparr>) = Inr s1 \<and> search_field s1 = q \<and>
           winnow_results s1 = Inr s2 \<and>
           results_data s2 = results_data s1 \<and>
           search_results s2 = search_results s1 \<and>
           result_highlight s2 = result_highlight s1 \<and>
           s2 = s1\<lparr> triggered := triggered s2 \<rparr> \<and>
           well_formed (results_data s1)"
proof -
  let ?t = "s\<lparr> search_field := q \<rparr>"
  have wf: "well_formed (results_data ?t)" using assms by simp
  from winnow_pass_returns [OF wf]
  obtain rd e where p: "winnow_pass ?t = Inr (rd, e)"
    and len: "length rd = length (results_data ?t)"
    and st: "\<And>i. stat (rd ! i) = stat (results_data ?t ! i)"
    by blast
  have wf_rd: "well_formed rd" by (rule well_formed_stat [OF len st wf])
  define s1 where "s1 = ?t\<lparr> results_data := rd, search_results := view_list ?t rd e,
      result_highlight := view_highlight ?t rd e,
      triggered := triggered ?t @ (if e < 1 \<and> get_search_text ?t \<noteq> [] then [No_results] else []) \<rparr>"
  have r1: "winnow_results ?t = Inr s1"
    unfolding s1_def by (rule winnow_results_shape [OF p])
  have c: "same_config ?t s1" by (simp add: s1_def same_config_def)
  have f: "search_field s1 = search_field ?t" by (simp add: s1_def)
  have d1: "results_data s1 = rd" and sr1: "search_results s1 = view_list ?t rd e"
    and h1: "result_highlight s1 = view_highlight ?t rd e"
    by (simp_all add: s1_def)
  have p1: "winnow_pass s1 = Inr (rd, e)"
    by (rule winnow_pass_twice [OF wf p c f d1])
  define s2 where "s2 = s1\<lparr> results_data := rd, search_results := view_list s1 rd e,
      result_highlight := view_highlight s1 rd e,
      triggered := triggered s1 @ (if e < 1 \<and> get_search_text s1 \<noteq> [] then [No_results] else []) \<rparr>"
  have r2: "winnow_results s1 = Inr s2"
    unfolding s2_def by (rule winnow_results_shape [OF p1])
  note v = view_cong [OF c f, of rd e]
  have a: "results_data s2 = results_data s1" by (simp add: s2_def d1)
  have b: "search_results s2 = search_results s1" by (simp add: s2_def sr1 v)
  have h: "result_highlight s2 = result_highlight s1" by (simp add: s2_def h1 v)
  have w: "s2 = s1\<lparr> triggered := triggered s2 \<rparr>"
    by (rule chosen.equality) (simp_all add: a b h, simp_all add: s2_def)
  have q: "search_field s1 = q" by (simp add: s1_def)
  have wf1: "well_formed (results_data s1)" using wf_rd by (simp only: d1)
  show ?thesis
    by (rule exI [of _ s1], rule exI [of _ s2], intro conjI)
       (rule r1, rule q, rule r2, rule a, rule b, rule h, rule w, rule wf1)
qed

theorem winnow_results_idempotent_witness:
  "well_formed (results_data (after (Chosen fruit_select no_options))) \<and>
   (\<exists>s1 s2. winnow_results ((after (Chosen fruit_select no_options))\<lparr> search_field := ''l'' \<rparr>) = Inr s1 \<and>
      winnow_results s1 = Inr s2 \<and>
      results_data s2 = results_data s1 \<and>
      search_results s2 = search_results s1 \<and>
      result_highlight s2 = result_highlight s1 \<and>
      map li_html (search_results s1) = [''Citrus'', ''<em>L</em>emon'', ''<em>L</em>ime''] \<and>
      result_highlight s1 = Some 1)"
proof -
  let ?w = "after (Chosen fruit_select no_options)"
  have rd: "results_data ?w = flatten 0 0 fruit" by code_simp
  have wf: "well_formed (results_data ?w)"
    by (simp only: rd well_formed_flatten)
  have h1: "map li_html (search_results (after (winnow_results (?w\<lparr> search_field := ''l'' \<rparr>)))) =
      [''Citrus'', ''<em>L</em>emon'', ''<em>L</em>ime'']" by code_simp
  have h2: "result_highlight (after (winnow_results (?w\<lparr> search_field := ''l'' \<rparr>))) = Some 1"
    by code_simp
  from winnow_results_idempotent [OF wf, of "''l''"]
  obtain s1 s2 where r: "winnow_results (?w\<lparr> search_field := ''l'' \<rparr>) = Inr s1"
    "winnow_results s1 = Inr s2" "results_data s2 = results_data s1"
    "search_results s2 = search_results s1" "result_highlight s2 = result_highlight s1"
    by blast
  have s1: "after (winnow_results (?w\<lparr> search_field := ''l'' \<rparr>)) = s1"
    using r(1) by (simp add: after_def)
  have v: "map li_html (search_results s1) = [''Citrus'', ''<em>L</em>emon'', ''<em>L</em>ime'']"
    "result_highlight s1 = Some 1"
    using h1 h2 unfolding s1 by simp_all
  show ?thesis
    by (intro conjI exI [of _ s1] exI [of _ s2])
       (rule wf, rule r(1), rule r(2), rule r(3), rule r(4), rule r(5), rule v(1), rule v(2))
qed

end
